theory Spec2Isabelle
  imports Main "HOL-Library.Sublist" "HOL-Library.Monad_Syntax"
begin

section \<open>The data of \<open>main.cpp\<close>\<close>

text \<open>
  \<open>TAhoCorasick\<close> keeps its trie in two vectors. \<open>Tree\<close> holds one \<open>TNode\<close> per trie
  node (index 0 is the root); \<open>Ways\<close> is one flat vector of \<open>ssize_t\<close> in which every
  node owns up to two rows of \<open>CodeSize\<close> cells: the row of its literal trie edges starts
  at offset \<open>Next\<close>, the row of its resolved transitions at offset \<open>Go\<close>. The value \<open>-1\<close>
  is the sentinel for "absent" in every \<open>ssize_t\<close> field and cell.

  Numbers: \<open>size_t\<close> values are \<open>nat\<close>, \<open>ssize_t\<close> values are \<open>int\<close>. A vector never
  holds more than \<open>max_size() < 2^63\<close> elements, so a size or an index stored into an
  \<open>ssize_t\<close> keeps its value, and a negative \<open>ssize_t\<close> used as an index converts to a
  \<open>size_t\<close> of at least \<open>2^63\<close>, which is beyond the end of every vector. Every read or
  write beyond the end of a vector or array, every failed \<open>assert\<close> and every loop that
  does not end is the result \<open>None\<close>. Running out of memory is not modelled.
\<close>

record TNode =
  Next :: int
  Go :: int
  IsLeaf :: int
  ParentCode :: nat
  Parent :: int
  SuffLink :: int
  Depth :: nat

text \<open>The default member initialisers of \<open>TNode\<close>.\<close>

definition TNode_new :: TNode where
  "TNode_new = \<lparr>Next = -1, Go = -1, IsLeaf = -1, ParentCode = 0, Parent = -1,
                 SuffLink = -1, Depth = 0\<rparr>"

text \<open>
  \<open>TState\<close>: the fields \<open>Idx\<close>, \<open>Depth\<close> and \<open>Leaf\<close> of the source; \<open>Depth\<close> and the
  method \<open>IsLeaf\<close> carry the suffix \<open>_st\<close> here, since \<open>TNode\<close> has members of the same
  names.
\<close>

record TState =
  Idx :: nat
  Depth_st :: nat
  Leaf :: int

text \<open>\<open>TState()\<close>, and the private constructor \<open>TState(idx, depth = 0, leaf = -1)\<close>.\<close>

definition TState_new :: TState where
  "TState_new = \<lparr>Idx = 0, Depth_st = 0, Leaf = -1\<rparr>"

definition TState_of :: "nat \<Rightarrow> nat \<Rightarrow> int \<Rightarrow> TState" where
  "TState_of idx depth leaf = \<lparr>Idx = idx, Depth_st = depth, Leaf = leaf\<rparr>"

definition IsRoot :: "TState \<Rightarrow> bool" where
  "IsRoot s = (Idx s = 0)"

definition IsNextTo :: "TState \<Rightarrow> TState \<Rightarrow> bool" where
  "IsNextTo t s = (Depth_st t = Depth_st s + 1)"

definition IsLeaf_st :: "TState \<Rightarrow> bool" where
  "IsLeaf_st s = (Leaf s \<ge> 0)"

text \<open>\<open>GetWordIdx\<close> asserts \<open>IsLeaf()\<close>.\<close>

definition GetWordIdx :: "TState \<Rightarrow> nat option" where
  "GetWordIdx s = (if IsLeaf_st s then Some (nat (Leaf s)) else None)"

record TAhoCorasick =
  CodeSize :: nat
  CodeMap :: "nat \<Rightarrow> int"
  Tree :: "TNode list"
  Ways :: "int list"

subsection \<open>Indexing\<close>

text \<open>
  \<open>CodeMap[c]\<close> indexes a \<open>std::array\<close> of \<open>1 << (8 * sizeof(char))\<close> = 256 cells with a
  \<open>char\<close>. \<open>operator[]\<close> takes a \<open>size_t\<close>, so the \<open>char\<close> is converted first. The model
  takes \<open>char\<close> as the signed 8-bit type it is on x86-64 and on every Apple platform: a
  byte of \<open>128\<close> or more is a negative \<open>char\<close>, and the conversion to the 64-bit \<open>size_t\<close>
  is modulo \<open>2^64\<close>.
\<close>

definition char_value :: "char \<Rightarrow> int" where
  "char_value c = (if (of_char c :: int) < 128 then of_char c else of_char c - 256)"

definition size_t_of :: "int \<Rightarrow> nat" where
  "size_t_of i = (if 0 \<le> i then nat i else nat (i + 2 ^ 64))"

definition char_index :: "char \<Rightarrow> nat" where
  "char_index c = size_t_of (char_value c)"

text \<open>
  The array has its size in its type, so it is a function on indices together with the
  constant size; \<open>code_at\<close> is the read \<open>CodeMap[c]\<close>.
\<close>

definition CODEMAP_SIZE :: nat where
  "CODEMAP_SIZE = 2 ^ (8 * 1)"

definition code_at :: "TAhoCorasick \<Rightarrow> char \<Rightarrow> int option" where
  "code_at a c = (if char_index c < CODEMAP_SIZE then Some (CodeMap a (char_index c)) else None)"

text \<open>Reading \<open>xs[i]\<close> of a vector for a \<open>size_t\<close> index and for an \<open>ssize_t\<close>-valued offset.\<close>

definition at :: "'a list \<Rightarrow> nat \<Rightarrow> 'a option" where
  "at xs i = (if i < length xs then Some (xs ! i) else None)"

definition at_off :: "'a list \<Rightarrow> int \<Rightarrow> 'a option" where
  "at_off xs i = (if 0 \<le> i \<and> nat i < length xs then Some (xs ! nat i) else None)"

text \<open>The bound of the \<open>unsigned\<close> loop counters \<open>wordIdx\<close>, \<open>chPos\<close> and \<open>i\<close>.\<close>

definition UINT_LIMIT :: nat where
  "UINT_LIMIT = 2 ^ 32"

section \<open>\<open>Reset\<close>\<close>

text \<open>Lines 69--76: codes are handed out in order of first occurrence.\<close>

fun assign_codes :: "string \<Rightarrow> TAhoCorasick \<Rightarrow> TAhoCorasick option" where
  "assign_codes [] a = Some a"
| "assign_codes (c # w) a =
     (if char_index c < CODEMAP_SIZE then
        assign_codes w
          (if CodeMap a (char_index c) = -1
           then a\<lparr>CodeMap := (CodeMap a)(char_index c := int (CodeSize a)),
                  CodeSize := CodeSize a + 1\<rparr>
           else a)
      else None)"

fun assign_all :: "string list \<Rightarrow> TAhoCorasick \<Rightarrow> TAhoCorasick option" where
  "assign_all [] a = Some a"
| "assign_all (w # ws) a = assign_codes w a \<bind> assign_all ws"

text \<open>
  Lines 81--100, the walk of one word from \<open>chPos\<close> on, standing at node \<open>curPos\<close>; the
  result is the node the word ends in.
\<close>

fun insert_chars :: "string \<Rightarrow> nat \<Rightarrow> nat \<Rightarrow> TAhoCorasick \<Rightarrow> (nat \<times> TAhoCorasick) option" where
  "insert_chars [] chPos curPos a = Some (curPos, a)"
| "insert_chars (c # w) chPos curPos a =
     do {
       code \<leftarrow> code_at a c;
       node \<leftarrow> at (Tree a) curPos;
       let a1 = (if Next node = -1
                 then a\<lparr>Tree := (Tree a)[curPos := node\<lparr>Next := int (length (Ways a))\<rparr>],
                        Ways := Ways a @ replicate (CodeSize a) (-1)\<rparr>
                 else a);
       let off = Next (Tree a1 ! curPos) + code;
       nextNode \<leftarrow> at_off (Ways a1) off;
       if nextNode = -1 then
         insert_chars w (chPos + 1) (length (Tree a1))
           (a1\<lparr>Ways := (Ways a1)[nat off := int (length (Tree a1))],
               Tree := Tree a1 @ [TNode_new\<lparr>Parent := int curPos, ParentCode := size_t_of code,
                                            Depth := chPos + 1\<rparr>]\<rparr>)
       else if nextNode < 0 then None
       else insert_chars w (chPos + 1) (nat nextNode) a1
     }"

text \<open>One round of the loop of line 78, and the loop.\<close>

definition insert_word :: "nat \<Rightarrow> string \<Rightarrow> TAhoCorasick \<Rightarrow> TAhoCorasick option" where
  "insert_word wordIdx w a =
     (if length w < UINT_LIMIT then
        do {
          (curPos, a1) \<leftarrow> insert_chars w 0 0 a;
          node \<leftarrow> at (Tree a1) curPos;
          Some (a1\<lparr>Tree := (Tree a1)[curPos := node\<lparr>IsLeaf := int wordIdx\<rparr>]\<rparr>)
        }
      else None)"

fun insert_words :: "nat \<Rightarrow> string list \<Rightarrow> TAhoCorasick \<Rightarrow> TAhoCorasick option" where
  "insert_words wordIdx [] a = Some a"
| "insert_words wordIdx (w # ws) a = insert_word wordIdx w a \<bind> insert_words (wordIdx + 1) ws"

definition Reset :: "string list \<Rightarrow> TAhoCorasick option" where
  "Reset words =
     (if length words < UINT_LIMIT then
        assign_all words \<lparr>CodeSize = 0, CodeMap = (\<lambda>i. -1), Tree = [TNode_new], Ways = []\<rparr>
          \<bind> insert_words 0 words
      else None)"

section \<open>The lazy resolvers\<close>

text \<open>
  \<open>GetLink\<close> and \<open>SwitchStateCode\<close> call each other and write their results into
  \<open>SuffLink\<close> and into the \<open>Go\<close> rows. They are one function here, over the request that
  names the call; \<open>None\<close> is also the value of a call that does not return.
\<close>

datatype request = Link TState | Switch nat TState

partial_function (option) resolve :: "request \<Rightarrow> TAhoCorasick \<Rightarrow> (TState \<times> TAhoCorasick) option" where
  "resolve r a =
     (case r of
        Link s \<Rightarrow>
          do {
            let v = Idx s;
            node \<leftarrow> at (Tree a) v;
            a1 \<leftarrow> (if SuffLink node = -1 then
                     if v = 0 \<or> Parent node = 0 then
                       Some (a\<lparr>Tree := (Tree a)[v := node\<lparr>SuffLink := 0\<rparr>]\<rparr>)
                     else if Parent node < 0 then None
                     else do {
                       (p, a') \<leftarrow> resolve (Link (TState_of (nat (Parent node)) 0 (-1))) a;
                       (t, a'') \<leftarrow> resolve (Switch (ParentCode node) p) a';
                       Some (a''\<lparr>Tree := (Tree a'')[v := (Tree a'' ! v)\<lparr>SuffLink := int (Idx t)\<rparr>]\<rparr>)
                     }
                   else Some a);
            node1 \<leftarrow> at (Tree a1) v;
            if SuffLink node1 \<ge> 0 then
              do {
                target \<leftarrow> at_off (Tree a1) (SuffLink node1);
                Some (TState_of (nat (SuffLink node1)) (Depth node1) (IsLeaf target), a1)
              }
            else None
          }
      | Switch code v \<Rightarrow>
          if code < CodeSize a then
            do {
              node0 \<leftarrow> at (Tree a) (Idx v);
              let a1 = (if Go node0 = -1
                        then a\<lparr>Tree := (Tree a)[Idx v := node0\<lparr>Go := int (length (Ways a))\<rparr>],
                               Ways := Ways a @ replicate (CodeSize a) (-1)\<rparr>
                        else a);
              let node = Tree a1 ! Idx v;
              let goOffset = Go node + int code;
              let nextOffset = Next node + int code;
              cached \<leftarrow> at_off (Ways a1) goOffset;
              a2 \<leftarrow> (if cached = -1 then
                       do {
                         literal \<leftarrow> (if Next node = -1 then Some (-1) else at_off (Ways a1) nextOffset);
                         if literal = -1 then
                           if IsRoot v then Some (a1\<lparr>Ways := (Ways a1)[nat goOffset := 0]\<rparr>)
                           else do {
                             (l, a') \<leftarrow> resolve (Link v) a1;
                             (t, a'') \<leftarrow> resolve (Switch code l) a';
                             if nat goOffset < length (Ways a'')
                             then Some (a''\<lparr>Ways := (Ways a'')[nat goOffset := int (Idx t)]\<rparr>)
                             else None
                           }
                         else Some (a1\<lparr>Ways := (Ways a1)[nat goOffset := literal]\<rparr>)
                       }
                     else Some a1);
              nextNode \<leftarrow> at_off (Ways a2) goOffset;
              target \<leftarrow> at_off (Tree a2) nextNode;
              Some (TState_of (nat nextNode) (Depth target) (IsLeaf target), a2)
            }
          else None)"

definition GetLink :: "TState \<Rightarrow> TAhoCorasick \<Rightarrow> (TState \<times> TAhoCorasick) option" where
  "GetLink s a = resolve (Link s) a"

definition SwitchStateCode :: "nat \<Rightarrow> TState \<Rightarrow> TAhoCorasick \<Rightarrow> (TState \<times> TAhoCorasick) option" where
  "SwitchStateCode code v a = resolve (Switch code v) a"

section \<open>The queries\<close>

definition SwitchState :: "char \<Rightarrow> TState \<Rightarrow> TAhoCorasick \<Rightarrow> (TState \<times> TAhoCorasick) option" where
  "SwitchState c v a =
     do {
       code \<leftarrow> code_at a c;
       if code = -1 then Some (TState_new, a)
       else if code < 0 then None
       else SwitchStateCode (nat code) v a
     }"

definition GetState :: "char \<Rightarrow> TAhoCorasick \<Rightarrow> (TState \<times> TAhoCorasick) option" where
  "GetState c a = SwitchState c TState_new a"

text \<open>The loop shared by \<open>HasString\<close> and \<open>HasPrefix\<close>: \<open>None\<close> inside is the early \<open>return false\<close>.\<close>

fun walk :: "string \<Rightarrow> TState \<Rightarrow> TAhoCorasick \<Rightarrow> (TState option \<times> TAhoCorasick) option" where
  "walk [] state a = Some (Some state, a)"
| "walk (c # s) state a =
     do {
       (newState, a') \<leftarrow> SwitchState c state a;
       if \<not> IsNextTo newState state then Some (None, a')
       else walk s newState a'
     }"

definition HasString :: "string \<Rightarrow> TAhoCorasick \<Rightarrow> (bool \<times> TAhoCorasick) option" where
  "HasString s a =
     do {
       (r, a') \<leftarrow> walk s TState_new a;
       Some (case r of None \<Rightarrow> False | Some state \<Rightarrow> IsLeaf_st state, a')
     }"

definition HasPrefix :: "string \<Rightarrow> TAhoCorasick \<Rightarrow> (bool \<times> TAhoCorasick) option" where
  "HasPrefix s a =
     do {
       (r, a') \<leftarrow> walk s TState_new a;
       Some (case r of None \<Rightarrow> False | Some state \<Rightarrow> True, a')
     }"

text \<open>
  The loop of \<open>SearchIn\<close> from position \<open>i\<close> on; \<open>res\<close> is the caller's vector. The counter
  \<open>i\<close> is \<open>unsigned\<close>: on a text of \<open>2^32\<close> or more symbols it wraps before it reaches
  \<open>s.size()\<close> and the loop does not end.
\<close>

fun search_loop :: "string \<Rightarrow> nat \<Rightarrow> TState \<Rightarrow> (nat \<times> nat) list \<Rightarrow> TAhoCorasick
    \<Rightarrow> ((nat \<times> nat) list \<times> TAhoCorasick) option" where
  "search_loop [] i state res a = Some (res, a)"
| "search_loop (c # s) i state res a =
     do {
       (state', a') \<leftarrow> SwitchState c state a;
       if IsLeaf_st state' then
         do {
           idx \<leftarrow> GetWordIdx state';
           search_loop s (i + 1) state' (res @ [(i + 1, idx)]) a'
         }
       else search_loop s (i + 1) state' res a'
     }"

definition SearchIn :: "string \<Rightarrow> (nat \<times> nat) list \<Rightarrow> TAhoCorasick
    \<Rightarrow> ((nat \<times> nat) list \<times> TAhoCorasick) option" where
  "SearchIn s res a = (if length s < UINT_LIMIT then search_loop s 0 TState_new res a else None)"

section \<open>Vocabulary of the specification\<close>

text \<open>
  A trie prefix of a pattern set is the empty string or a prefix of a pattern. \<open>lsp P x\<close>
  is the longest suffix of \<open>x\<close> that satisfies \<open>P\<close> (the empty string when there is none),
  and \<open>state_str ws x\<close> the longest suffix of \<open>x\<close> that is a trie prefix of \<open>ws\<close>.
\<close>

definition trie_prefix :: "'a list list \<Rightarrow> 'a list \<Rightarrow> bool" where
  "trie_prefix ps x = (x = [] \<or> (\<exists>p\<in>set ps. prefix x p))"

fun lsp :: "('a list \<Rightarrow> bool) \<Rightarrow> 'a list \<Rightarrow> 'a list" where
  "lsp P [] = []"
| "lsp P (x # xs) = (if P (x # xs) then x # xs else lsp P xs)"

definition state_str :: "'a list list \<Rightarrow> 'a list \<Rightarrow> 'a list" where
  "state_str ws x = lsp (trie_prefix ws) x"

text \<open>The greatest index at which \<open>x\<close> stands in \<open>xs\<close>.\<close>

definition last_index :: "'a list \<Rightarrow> 'a \<Rightarrow> nat" where
  "last_index xs x = length xs - 1 - length (takeWhile (\<lambda>y. y \<noteq> x) (rev xs))"

text \<open>The codes of a string, and the string of codes on the path from the root to a node.\<close>

definition enc :: "TAhoCorasick \<Rightarrow> string \<Rightarrow> int list" where
  "enc a s = map (\<lambda>c. CodeMap a (char_index c)) s"

fun path_of :: "TNode list \<Rightarrow> nat \<Rightarrow> nat \<Rightarrow> int list" where
  "path_of t 0 v = []"
| "path_of t (Suc n) v =
     (if v = 0 \<or> length t \<le> v \<or> Parent (t ! v) < 0 then []
      else path_of t n (nat (Parent (t ! v))) @ [int (ParentCode (t ! v))])"

definition node_str :: "TAhoCorasick \<Rightarrow> nat \<Rightarrow> int list" where
  "node_str a v = path_of (Tree a) (Depth (Tree a ! v)) v"

subsection \<open>Reading the flat table\<close>

text \<open>
  The literal edge and the resolved transition of node \<open>v\<close> under code \<open>c\<close>, and the two
  row offsets of a node as slots: \<open>(v, False)\<close> is \<open>Next\<close>, \<open>(v, True)\<close> is \<open>Go\<close>.
\<close>

definition edge :: "TAhoCorasick \<Rightarrow> nat \<Rightarrow> nat \<Rightarrow> int" where
  "edge a v c = (if Next (Tree a ! v) = -1 then -1 else Ways a ! (nat (Next (Tree a ! v)) + c))"

definition gocell :: "TAhoCorasick \<Rightarrow> nat \<Rightarrow> nat \<Rightarrow> int" where
  "gocell a v c = Ways a ! (nat (Go (Tree a ! v)) + c)"

definition slot :: "TAhoCorasick \<Rightarrow> nat \<Rightarrow> bool \<Rightarrow> int" where
  "slot a v b = (if b then Go (Tree a ! v) else Next (Tree a ! v))"

subsection \<open>Invariants\<close>

text \<open>
  \<open>lab\<close> lists the code string of every node. Every allocated row lies inside \<open>Ways\<close> and
  no two rows overlap.
\<close>

definition alloc :: "TAhoCorasick \<Rightarrow> bool" where
  "alloc a =
     ((\<forall>v b. v < length (Tree a) \<longrightarrow> slot a v b \<noteq> -1 \<longrightarrow>
         0 \<le> slot a v b \<and> nat (slot a v b) + CodeSize a \<le> length (Ways a)) \<and>
      (\<forall>v b v' b'. v < length (Tree a) \<longrightarrow> v' < length (Tree a) \<longrightarrow> (v, b) \<noteq> (v', b') \<longrightarrow>
         slot a v b \<noteq> -1 \<longrightarrow> slot a v' b' \<noteq> -1 \<longrightarrow>
         slot a v b + int (CodeSize a) \<le> slot a v' b' \<or> slot a v' b' + int (CodeSize a) \<le> slot a v b))"

definition shape :: "int list list \<Rightarrow> TAhoCorasick \<Rightarrow> bool" where
  "shape lab a = (length (Tree a) = length lab \<and> lab \<noteq> [] \<and> lab ! 0 = [] \<and> distinct lab)"

definition depths :: "int list list \<Rightarrow> TAhoCorasick \<Rightarrow> bool" where
  "depths lab a = (\<forall>v<length lab. Depth (Tree a ! v) = length (lab ! v))"

definition parents :: "int list list \<Rightarrow> TAhoCorasick \<Rightarrow> bool" where
  "parents lab a =
     (\<forall>v<length lab. 0 < v \<longrightarrow>
        0 \<le> Parent (Tree a ! v) \<and> nat (Parent (Tree a ! v)) < length lab \<and>
        ParentCode (Tree a ! v) < CodeSize a \<and>
        lab ! v = lab ! nat (Parent (Tree a ! v)) @ [int (ParentCode (Tree a ! v))])"

definition edges :: "int list list \<Rightarrow> TAhoCorasick \<Rightarrow> bool" where
  "edges lab a =
     (\<forall>v<length lab. \<forall>c<CodeSize a.
        (edge a v c = -1 \<and> lab ! v @ [int c] \<notin> set lab) \<or>
        (\<exists>u<length lab. edge a v c = int u \<and> lab ! u = lab ! v @ [int c]))"

definition sinv :: "int list list \<Rightarrow> TAhoCorasick \<Rightarrow> bool" where
  "sinv lab a = (shape lab a \<and> alloc a \<and> depths lab a \<and> parents lab a \<and> edges lab a)"

text \<open>What the caches hold is right: a cell or link is absent or the node the definition names.\<close>

definition gos :: "int list list \<Rightarrow> TAhoCorasick \<Rightarrow> bool" where
  "gos lab a =
     (\<forall>v<length lab. \<forall>c<CodeSize a. Go (Tree a ! v) \<noteq> -1 \<longrightarrow>
        gocell a v c = -1 \<or>
        (\<exists>u<length lab. gocell a v c = int u \<and> lab ! u = lsp (\<lambda>x. x \<in> set lab) (lab ! v @ [int c])))"

definition links :: "int list list \<Rightarrow> TAhoCorasick \<Rightarrow> bool" where
  "links lab a =
     (\<forall>v<length lab. SuffLink (Tree a ! v) = -1 \<or>
        (\<exists>u<length lab. SuffLink (Tree a ! v) = int u \<and>
           lab ! u = lsp (\<lambda>x. x \<in> set lab) (tl (lab ! v))))"

definition qinv :: "int list list \<Rightarrow> TAhoCorasick \<Rightarrow> bool" where
  "qinv lab a = (sinv lab a \<and> gos lab a \<and> links lab a)"

text \<open>What a query may change: it fills caches, and a \<open>Go\<close> row once allocated stays.\<close>

definition ext :: "TAhoCorasick \<Rightarrow> TAhoCorasick \<Rightarrow> bool" where
  "ext a a' =
     (CodeSize a' = CodeSize a \<and> CodeMap a' = CodeMap a \<and> length (Tree a') = length (Tree a) \<and>
      (\<forall>v<length (Tree a).
         Next (Tree a' ! v) = Next (Tree a ! v) \<and> IsLeaf (Tree a' ! v) = IsLeaf (Tree a ! v) \<and>
         ParentCode (Tree a' ! v) = ParentCode (Tree a ! v) \<and>
         Parent (Tree a' ! v) = Parent (Tree a ! v) \<and> Depth (Tree a' ! v) = Depth (Tree a ! v) \<and>
         (Go (Tree a ! v) \<noteq> -1 \<longrightarrow> Go (Tree a' ! v) = Go (Tree a ! v))))"

definition prefix_closed :: "('a list \<Rightarrow> bool) \<Rightarrow> bool" where
  "prefix_closed P = (P [] \<and> (\<forall>x c. P (x @ [c]) \<longrightarrow> P x))"

definition alloc_go :: "TAhoCorasick \<Rightarrow> nat \<Rightarrow> TAhoCorasick" where
  "alloc_go a v = a\<lparr>Tree := (Tree a)[v := (Tree a ! v)\<lparr>Go := int (length (Ways a))\<rparr>],
                     Ways := Ways a @ replicate (CodeSize a) (-1)\<rparr>"

definition set_go :: "TAhoCorasick \<Rightarrow> nat \<Rightarrow> int \<Rightarrow> TAhoCorasick" where
  "set_go a k x = a\<lparr>Ways := (Ways a)[k := x]\<rparr>"

definition set_link :: "TAhoCorasick \<Rightarrow> nat \<Rightarrow> int \<Rightarrow> TAhoCorasick" where
  "set_link a v x = a\<lparr>Tree := (Tree a)[v := (Tree a ! v)\<lparr>SuffLink := x\<rparr>]\<rparr>"

definition link_result :: "nat \<Rightarrow> TAhoCorasick \<Rightarrow> (TState \<times> TAhoCorasick) option" where
  "link_result v a1 =
     do {
       node1 \<leftarrow> at (Tree a1) v;
       if SuffLink node1 \<ge> 0 then
         do {
           target \<leftarrow> at_off (Tree a1) (SuffLink node1);
           Some (TState_of (nat (SuffLink node1)) (Depth node1) (IsLeaf target), a1)
         }
       else None
     }"

definition switch_result :: "int \<Rightarrow> TAhoCorasick \<Rightarrow> (TState \<times> TAhoCorasick) option" where
  "switch_result goOffset a2 =
     do {
       nextNode \<leftarrow> at_off (Ways a2) goOffset;
       target \<leftarrow> at_off (Tree a2) nextNode;
       Some (TState_of (nat nextNode) (Depth target) (IsLeaf target), a2)
     }"

definition link_ok :: "int list list \<Rightarrow> TAhoCorasick \<Rightarrow> nat \<Rightarrow> TState \<times> TAhoCorasick \<Rightarrow> bool" where
  "link_ok lab a v r =
     (case r of (t, a') \<Rightarrow>
        qinv lab a' \<and> ext a a' \<and> Idx t < length lab \<and>
        lab ! Idx t = lsp (\<lambda>x. x \<in> set lab) (tl (lab ! v)) \<and>
        Depth_st t = Depth (Tree a ! v) \<and> Leaf t = IsLeaf (Tree a ! Idx t))"

definition switch_ok :: "int list list \<Rightarrow> TAhoCorasick \<Rightarrow> nat \<Rightarrow> nat \<Rightarrow> TState \<times> TAhoCorasick \<Rightarrow> bool" where
  "switch_ok lab a c v r =
     (case r of (t, a') \<Rightarrow>
        qinv lab a' \<and> ext a a' \<and> Idx t < length lab \<and>
        lab ! Idx t = lsp (\<lambda>x. x \<in> set lab) (lab ! v @ [int c]) \<and>
        Depth_st t = Depth (Tree a ! Idx t) \<and> Leaf t = IsLeaf (Tree a ! Idx t))"

definition rank :: "int list list \<Rightarrow> request \<Rightarrow> nat" where
  "rank lab r = (case r of Link s \<Rightarrow> 2 * length (lab ! Idx s)
                 | Switch c s \<Rightarrow> 2 * length (lab ! Idx s) + 1)"

definition resolve_ok :: "int list list \<Rightarrow> request \<Rightarrow> TAhoCorasick \<Rightarrow> bool" where
  "resolve_ok lab r a =
     (case r of
        Link s \<Rightarrow> Idx s < length lab \<longrightarrow>
          (\<exists>res. resolve r a = Some res \<and> link_ok lab a (Idx s) res)
      | Switch c s \<Rightarrow> Idx s < length lab \<longrightarrow> c < CodeSize a \<longrightarrow>
          (\<exists>res. resolve r a = Some res \<and> switch_ok lab a c (Idx s) res))"

definition code_inv :: "TAhoCorasick \<Rightarrow> bool" where
  "code_inv a =
     ((\<forall>i. CodeMap a i = -1 \<or> (0 \<le> CodeMap a i \<and> CodeMap a i < int (CodeSize a))) \<and>
      (\<forall>i j. CodeMap a i = CodeMap a j \<longrightarrow> CodeMap a i \<noteq> -1 \<longrightarrow> i = j) \<and>
      (\<forall>i. CODEMAP_SIZE \<le> i \<longrightarrow> CodeMap a i = -1))"

definition mapped :: "TAhoCorasick \<Rightarrow> string \<Rightarrow> bool" where
  "mapped a s = (\<forall>c\<in>set s. char_index c < CODEMAP_SIZE \<and> CodeMap a (char_index c) \<noteq> -1)"

definition fresh :: "TAhoCorasick \<Rightarrow> bool" where
  "fresh a = (\<forall>v<length (Tree a). Go (Tree a ! v) = -1 \<and> SuffLink (Tree a ! v) = -1)"

definition alloc_next :: "TAhoCorasick \<Rightarrow> nat \<Rightarrow> TAhoCorasick" where
  "alloc_next a v = a\<lparr>Tree := (Tree a)[v := (Tree a ! v)\<lparr>Next := int (length (Ways a))\<rparr>],
                       Ways := Ways a @ replicate (CodeSize a) (-1)\<rparr>"

definition add_child :: "TAhoCorasick \<Rightarrow> nat \<Rightarrow> nat \<Rightarrow> nat \<Rightarrow> TAhoCorasick" where
  "add_child a v k d =
     a\<lparr>Ways := (Ways a)[nat (Next (Tree a ! v)) + k := int (length (Tree a))],
       Tree := Tree a @ [TNode_new\<lparr>Parent := int v, ParentCode := k, Depth := d\<rparr>]\<rparr>"

definition set_leaf :: "TAhoCorasick \<Rightarrow> nat \<Rightarrow> int \<Rightarrow> TAhoCorasick" where
  "set_leaf a u i = a\<lparr>Tree := (Tree a)[u := (Tree a ! u)\<lparr>IsLeaf := i\<rparr>]\<rparr>"

definition with_next :: "TAhoCorasick \<Rightarrow> nat \<Rightarrow> TAhoCorasick" where
  "with_next a v = (if Next (Tree a ! v) = -1 then alloc_next a v else a)"

definition grown :: "int list list \<Rightarrow> TAhoCorasick \<Rightarrow> nat \<Rightarrow> int list \<Rightarrow> int list list
    \<Rightarrow> TAhoCorasick \<Rightarrow> nat \<Rightarrow> bool" where
  "grown lab a cp y lab' a' u =
     (sinv lab' a' \<and> fresh a' \<and> CodeMap a' = CodeMap a \<and> CodeSize a' = CodeSize a \<and>
      prefix lab lab' \<and> u < length lab' \<and> lab' ! u = lab ! cp @ y \<and>
      (\<forall>x\<in>set lab'. x \<in> set lab \<or> (\<exists>z. x = lab ! cp @ z \<and> prefix z y)) \<and>
      (\<forall>v<length lab. IsLeaf (Tree a' ! v) = IsLeaf (Tree a ! v)) \<and>
      (\<forall>v. length lab \<le> v \<longrightarrow> v < length lab' \<longrightarrow> IsLeaf (Tree a' ! v) = -1))"

definition trie_of :: "string list \<Rightarrow> int list list \<Rightarrow> TAhoCorasick \<Rightarrow> bool" where
  "trie_of ws lab a = (\<forall>x. x \<in> set lab \<longleftrightarrow> trie_prefix (map (enc a) ws) x)"

definition leaves :: "string list \<Rightarrow> int list list \<Rightarrow> TAhoCorasick \<Rightarrow> bool" where
  "leaves ws lab a =
     (\<forall>v<length lab.
        (IsLeaf (Tree a ! v) = -1 \<and> lab ! v \<notin> enc a ` set ws) \<or>
        (\<exists>i<length ws. IsLeaf (Tree a ! v) = int i \<and> enc a (ws ! i) = lab ! v \<and>
           (\<forall>j<length ws. enc a (ws ! j) = lab ! v \<longrightarrow> j \<le> i)))"

definition binv :: "string list \<Rightarrow> int list list \<Rightarrow> TAhoCorasick \<Rightarrow> bool" where
  "binv ws lab a = (sinv lab a \<and> fresh a \<and> code_inv a \<and> trie_of ws lab a \<and> leaves ws lab a)"

definition TAhoCorasick_new :: TAhoCorasick where
  "TAhoCorasick_new = \<lparr>CodeSize = 0, CodeMap = (\<lambda>i. -1), Tree = [TNode_new], Ways = []\<rparr>"

definition ac_inv :: "string list \<Rightarrow> int list list \<Rightarrow> TAhoCorasick \<Rightarrow> bool" where
  "ac_inv ws lab a =
     (qinv lab a \<and> code_inv a \<and> (\<forall>w\<in>set ws. mapped a w) \<and> trie_of ws lab a \<and> leaves ws lab a)"

definition leaf_of :: "string list \<Rightarrow> string \<Rightarrow> int" where
  "leaf_of ws z = (if z \<in> set ws then int (last_index ws z) else -1)"

definition step_ok :: "string list \<Rightarrow> int list list \<Rightarrow> TAhoCorasick \<Rightarrow> string \<Rightarrow> char
    \<Rightarrow> TState \<times> TAhoCorasick \<Rightarrow> bool" where
  "step_ok ws lab a x c r =
     (case r of (t, a') \<Rightarrow>
        ac_inv ws lab a' \<and> ext a a' \<and> Idx t < length lab \<and>
        lab ! Idx t = enc a (state_str ws (x @ [c])) \<and>
        Depth_st t = length (state_str ws (x @ [c])) \<and>
        Leaf t = (if CodeMap a (char_index c) = -1 then -1 else leaf_of ws (state_str ws (x @ [c]))))"

definition walk_ok :: "string list \<Rightarrow> string \<Rightarrow> string \<Rightarrow> TState \<Rightarrow> TState option \<Rightarrow> bool" where
  "walk_ok ws y s v r =
     (case r of None \<Rightarrow> \<not> trie_prefix ws (y @ s)
      | Some t \<Rightarrow> trie_prefix ws (y @ s) \<and> (if s = [] then t = v else Leaf t = leaf_of ws (y @ s)))"

fun hits :: "TAhoCorasick \<Rightarrow> string list \<Rightarrow> string \<Rightarrow> string \<Rightarrow> (nat \<times> nat) list" where
  "hits a ws x [] = []"
| "hits a ws x (c # s) =
     (if CodeMap a (char_index c) \<noteq> -1 \<and> state_str ws (x @ [c]) \<in> set ws
      then [(length x + 1, last_index ws (state_str ws (x @ [c])))] else [])
     @ hits a ws (x @ [c]) s"

text \<open>
  \<open>built ws a\<close>: the automaton \<open>a\<close> was made by \<open>Reset ws\<close> and has answered any number of
  calls of its public methods since.
\<close>

inductive built :: "string list \<Rightarrow> TAhoCorasick \<Rightarrow> bool" for ws :: "string list" where
  built_Reset: "Reset ws = Some a \<Longrightarrow> built ws a"
| built_SwitchState: "built ws a \<Longrightarrow> SwitchState c v a = Some (t, a') \<Longrightarrow> built ws a'"
| built_GetState: "built ws a \<Longrightarrow> GetState c a = Some (t, a') \<Longrightarrow> built ws a'"
| built_GetLink: "built ws a \<Longrightarrow> GetLink v a = Some (t, a') \<Longrightarrow> built ws a'"
| built_HasString: "built ws a \<Longrightarrow> HasString s a = Some (b, a') \<Longrightarrow> built ws a'"
| built_HasPrefix: "built ws a \<Longrightarrow> HasPrefix s a = Some (b, a') \<Longrightarrow> built ws a'"
| built_SearchIn: "built ws a \<Longrightarrow> SearchIn s res a = Some (res', a') \<Longrightarrow> built ws a'"

section \<open>Longest suffixes\<close>

lemma lsp_suffix: "suffix (lsp P x) x"
  by (induction x) (auto simp: suffix_Cons)

lemma lsp_P: "P [] \<Longrightarrow> P (lsp P x)"
  by (induction x) auto

lemma lsp_id: "P x \<Longrightarrow> lsp P x = x"
  by (cases x) auto

lemma lsp_longest: "suffix y x \<Longrightarrow> P y \<Longrightarrow> suffix y (lsp P x)"
proof (induction x)
  case Nil
  then show ?case by simp
next
  case (Cons a x)
  then show ?case by (auto simp: suffix_Cons)
qed

lemma lsp_length_le: "length (lsp P x) \<le> length x"
  using lsp_suffix[of P x] by (rule suffix_length_le)

lemma lsp_eq_iff: "P [] \<Longrightarrow> lsp P x = x \<longleftrightarrow> P x"
  using lsp_P[of P x] lsp_id[of P x] by auto

lemma lsp_full_length: "P [] \<Longrightarrow> length (lsp P x) = length x \<longleftrightarrow> P x"
proof
  assume P: "P []" and len: "length (lsp P x) = length x"
  have "suffix (lsp P x) x" by (rule lsp_suffix)
  with len have "lsp P x = x" by (metis suffix_length_suffix suffix_order.antisym suffix_order.refl order_refl)
  with P show "P x" by (simp add: lsp_eq_iff)
next
  assume "P []" "P x" then show "length (lsp P x) = length x" by (simp add: lsp_id)
qed

lemma lsp_step:
  assumes "prefix_closed P"
  shows "lsp P (x @ [c]) = lsp P (lsp P x @ [c])"
proof -
  let ?u = "lsp P (x @ [c])"
  from assms have P0: "P []" by (simp add: prefix_closed_def)
  have suf: "suffix (lsp P x @ [c]) (x @ [c])"
    using lsp_suffix[of P x] by simp
  have "suffix ?u (lsp P x @ [c])"
  proof (cases ?u rule: rev_cases)
    case Nil
    then show ?thesis by simp
  next
    case (snoc u' d)
    have "suffix (u' @ [d]) (x @ [c])" using lsp_suffix[of P "x @ [c]"] snoc by simp
    then have d: "d = c" and u': "suffix u' x" by auto
    have "P (u' @ [d])" using lsp_P[of P "x @ [c]", OF P0] snoc by simp
    with assms have "P u'" by (auto simp: prefix_closed_def)
    with u' have "suffix u' (lsp P x)" by (rule lsp_longest)
    with d snoc show ?thesis by simp
  qed
  moreover have "P ?u" using P0 by (rule lsp_P)
  ultimately have a: "suffix ?u (lsp P (lsp P x @ [c]))" by (rule lsp_longest)
  have "suffix (lsp P (lsp P x @ [c])) (x @ [c])"
    using lsp_suffix[of P "lsp P x @ [c]"] suf by (rule suffix_order.trans)
  moreover have "P (lsp P (lsp P x @ [c]))" using P0 by (rule lsp_P)
  ultimately have b: "suffix (lsp P (lsp P x @ [c])) ?u" by (rule lsp_longest)
  from a b show ?thesis by (rule suffix_order.antisym)
qed

lemma lsp_tl: "x \<noteq> [] \<Longrightarrow> \<not> P x \<Longrightarrow> lsp P x = lsp P (tl x)"
  by (cases x) auto

lemma lsp_fallback:
  assumes "prefix_closed P" "x \<noteq> []" "\<not> P (x @ [c])"
  shows "lsp P (x @ [c]) = lsp P (lsp P (tl x) @ [c])"
proof -
  have "lsp P (x @ [c]) = lsp P (tl (x @ [c]))" using assms(3) by (intro lsp_tl) auto
  also have "tl (x @ [c]) = tl x @ [c]" using assms(2) by simp
  also have "lsp P (tl x @ [c]) = lsp P (lsp P (tl x) @ [c])" by (rule lsp_step[OF assms(1)])
  finally show ?thesis .
qed

lemma lsp_single: "P [] \<Longrightarrow> \<not> P [c] \<Longrightarrow> lsp P [c] = []"
  by simp

lemma lsp_strict: "x \<noteq> [] \<Longrightarrow> length (lsp P (tl x)) < length x"
  using lsp_length_le[of P "tl x"] by (cases x) auto

section \<open>Facts of the invariants\<close>

lemma shape_inj: "shape lab a \<Longrightarrow> u < length lab \<Longrightarrow> v < length lab \<Longrightarrow> lab ! u = lab ! v \<Longrightarrow> u = v"
  by (simp add: shape_def nth_eq_iff_index_eq)

lemma shape_pos: "shape lab a \<Longrightarrow> 0 < length lab"
  unfolding shape_def by simp

lemma shape_len: "shape lab a \<Longrightarrow> length (Tree a) = length lab"
  unfolding shape_def by simp

lemma shape_0: "shape lab a \<Longrightarrow> lab ! 0 = []"
  unfolding shape_def by blast

lemma shape_root:
  assumes "shape lab a" "v < length lab"
  shows "lab ! v = [] \<longleftrightarrow> v = 0"
proof
  assume "lab ! v = []"
  then have "lab ! v = lab ! 0" using assms by (simp add: shape_0)
  moreover have "0 < length lab" using assms(1) by (rule shape_pos)
  ultimately show "v = 0" using assms shape_inj[of lab a v 0] by blast
next
  assume "v = 0" then show "lab ! v = []" using assms by (simp add: shape_0)
qed

lemma shape_mem: "shape lab a \<Longrightarrow> [] \<in> set lab"
  using nth_mem[of 0 lab] by (auto simp: shape_def)

lemma sinv_prefix_closed:
  assumes "sinv lab a"
  shows "prefix_closed (\<lambda>x. x \<in> set lab)"
  unfolding prefix_closed_def
proof (intro conjI allI impI)
  show "[] \<in> set lab" using assms by (auto simp: sinv_def intro: shape_mem)
next
  fix x c assume "x @ [c] \<in> set lab"
  then obtain v where v: "v < length lab" "lab ! v = x @ [c]" by (auto simp: in_set_conv_nth)
  have sh: "shape lab a" and pa: "parents lab a" using assms by (simp_all add: sinv_def)
  from v sh have "0 < v" using shape_root[of lab a v] by auto
  with pa v(1) have "nat (Parent (Tree a ! v)) < length lab"
    and "lab ! v = lab ! nat (Parent (Tree a ! v)) @ [int (ParentCode (Tree a ! v))]"
    by (auto simp: parents_def)
  with v(2) show "x \<in> set lab" by auto
qed

lemma cell_neq:
  assumes "alloc a" "v < length (Tree a)" "v' < length (Tree a)" "c < CodeSize a" "c' < CodeSize a"
    "slot a v b \<noteq> -1" "slot a v' b' \<noteq> -1" "(v, b) \<noteq> (v', b')"
  shows "nat (slot a v b) + c \<noteq> nat (slot a v' b') + c'"
proof -
  from assms have "0 \<le> slot a v b" "0 \<le> slot a v' b'" by (auto simp: alloc_def)
  moreover from assms have "slot a v b + int (CodeSize a) \<le> slot a v' b' \<or>
      slot a v' b' + int (CodeSize a) \<le> slot a v b"
    unfolding alloc_def by blast
  ultimately show ?thesis using assms(4,5) by linarith
qed

lemma cell_in:
  assumes "alloc a" "v < length (Tree a)" "c < CodeSize a" "slot a v b \<noteq> -1"
  shows "0 \<le> slot a v b" "nat (slot a v b) + c < length (Ways a)"
  using assms by (auto simp: alloc_def dest!: spec[of _ v] spec[of _ b])

lemma ext_refl: "ext a a"
  by (simp add: ext_def)

lemma ext_trans: "ext a b \<Longrightarrow> ext b c \<Longrightarrow> ext a c"
  by (auto simp: ext_def)

subsection \<open>Allocating a \<open>Go\<close> row\<close>

lemma alloc_go_simps:
  "CodeSize (alloc_go a v) = CodeSize a" "CodeMap (alloc_go a v) = CodeMap a"
  "length (Tree (alloc_go a v)) = length (Tree a)"
  "length (Ways (alloc_go a v)) = length (Ways a) + CodeSize a"
  by (simp_all add: alloc_go_def)

lemma alloc_go_node:
  "u < length (Tree a) \<Longrightarrow> Tree (alloc_go a v) ! u =
     (if u = v then (Tree a ! v)\<lparr>Go := int (length (Ways a))\<rparr> else Tree a ! u)"
  by (simp add: alloc_go_def nth_list_update)

lemma alloc_go_slot:
  "u < length (Tree a) \<Longrightarrow> slot (alloc_go a v) u b =
     (if u = v \<and> b then int (length (Ways a)) else slot a u b)"
  by (simp add: slot_def alloc_go_node)

lemma alloc_go_alloc:
  assumes "alloc a" "v < length (Tree a)" "Go (Tree a ! v) = -1"
  shows "alloc (alloc_go a v)"
  unfolding alloc_def
proof (rule conjI; intro allI impI)
  fix u b assume u: "u < length (Tree (alloc_go a v))" and s: "slot (alloc_go a v) u b \<noteq> - 1"
  show "0 \<le> slot (alloc_go a v) u b \<and>
    nat (slot (alloc_go a v) u b) + CodeSize (alloc_go a v) \<le> length (Ways (alloc_go a v))"
  proof (cases "u = v \<and> b")
    case True
    then show ?thesis using u by (simp add: alloc_go_slot alloc_go_simps)
  next
    case False
    with u s have "slot a u b \<noteq> -1" by (auto simp: alloc_go_slot alloc_go_simps)
    with assms(1) u have "0 \<le> slot a u b \<and> nat (slot a u b) + CodeSize a \<le> length (Ways a)"
      by (auto simp: alloc_def alloc_go_simps)
    with False u show ?thesis by (auto simp: alloc_go_slot alloc_go_simps)
  qed
next
  fix u b u' b'
  assume u: "u < length (Tree (alloc_go a v))" "u' < length (Tree (alloc_go a v))"
    and ne: "(u, b) \<noteq> (u', b')"
    and s: "slot (alloc_go a v) u b \<noteq> - 1" "slot (alloc_go a v) u' b' \<noteq> - 1"
  have old: "\<And>w d. w < length (Tree a) \<Longrightarrow> slot a w d \<noteq> -1 \<Longrightarrow>
      slot a w d + int (CodeSize a) \<le> int (length (Ways a))"
  proof -
    fix w d assume "w < length (Tree a)" "slot a w d \<noteq> -1"
    with assms(1) have "0 \<le> slot a w d \<and> nat (slot a w d) + CodeSize a \<le> length (Ways a)"
      unfolding alloc_def by blast
    then show "slot a w d + int (CodeSize a) \<le> int (length (Ways a))" by linarith
  qed
  show "slot (alloc_go a v) u b + int (CodeSize (alloc_go a v)) \<le> slot (alloc_go a v) u' b' \<or>
    slot (alloc_go a v) u' b' + int (CodeSize (alloc_go a v)) \<le> slot (alloc_go a v) u b"
  proof (cases "u = v \<and> b")
    case True
    with ne have F: "\<not> (u' = v \<and> b')" by auto
    with s(2) u(2) have "slot a u' b' \<noteq> -1" by (auto simp: alloc_go_slot alloc_go_simps)
    with old u(2) have "slot a u' b' + int (CodeSize a) \<le> int (length (Ways a))"
      by (simp add: alloc_go_simps)
    with True F u show ?thesis by (auto simp: alloc_go_slot alloc_go_simps)
  next
    case False
    with s(1) u(1) have 1: "slot a u b \<noteq> -1" by (auto simp: alloc_go_slot alloc_go_simps)
    show ?thesis
    proof (cases "u' = v \<and> b'")
      case True
      from old 1 u(1) have "slot a u b + int (CodeSize a) \<le> int (length (Ways a))"
        by (simp add: alloc_go_simps)
      with True False u show ?thesis by (auto simp: alloc_go_slot alloc_go_simps)
    next
      case F2: False
      with s(2) u(2) have 2: "slot a u' b' \<noteq> -1" by (auto simp: alloc_go_slot alloc_go_simps)
      from assms(1) u ne 1 2 have "slot a u b + int (CodeSize a) \<le> slot a u' b' \<or>
          slot a u' b' + int (CodeSize a) \<le> slot a u b"
        unfolding alloc_def alloc_go_simps by blast
      with False F2 u show ?thesis by (auto simp: alloc_go_slot alloc_go_simps)
    qed
  qed
qed

lemma edge_in_row:
  assumes "alloc a" "u < length (Tree a)" "c < CodeSize a" "Next (Tree a ! u) \<noteq> -1"
  shows "0 \<le> Next (Tree a ! u)" "nat (Next (Tree a ! u)) + c < length (Ways a)"
  using cell_in[OF assms(1,2,3), of False] assms(4) by (simp_all add: slot_def)

lemma go_in_row:
  assumes "alloc a" "u < length (Tree a)" "c < CodeSize a" "Go (Tree a ! u) \<noteq> -1"
  shows "0 \<le> Go (Tree a ! u)" "nat (Go (Tree a ! u)) + c < length (Ways a)"
  using cell_in[OF assms(1,2,3), of True] assms(4) by (simp_all add: slot_def)

lemma alloc_go_Next:
  "u < length (Tree a) \<Longrightarrow> Next (Tree (alloc_go a v) ! u) = Next (Tree a ! u)"
  by (simp add: alloc_go_node)

lemma alloc_go_Ways_old: "k < length (Ways a) \<Longrightarrow> Ways (alloc_go a v) ! k = Ways a ! k"
  by (simp add: alloc_go_def nth_append)

lemma alloc_go_Ways_new: "c < CodeSize a \<Longrightarrow> Ways (alloc_go a v) ! (length (Ways a) + c) = -1"
  by (simp add: alloc_go_def nth_append)

lemma alloc_go_edge:
  assumes "alloc a" "u < length (Tree a)" "c < CodeSize a"
  shows "edge (alloc_go a v) u c = edge a u c"
proof (cases "Next (Tree a ! u) = -1")
  case True
  then show ?thesis using assms(2) by (simp add: edge_def alloc_go_Next)
next
  case False
  from edge_in_row[OF assms False] have "nat (Next (Tree a ! u)) + c < length (Ways a)" by simp
  then show ?thesis using assms(2) False
    by (simp add: edge_def alloc_go_Next alloc_go_Ways_old)
qed

lemma alloc_go_gocell_new:
  assumes "v < length (Tree a)" "c < CodeSize a"
  shows "gocell (alloc_go a v) v c = -1"
  using assms by (simp add: gocell_def alloc_go_node alloc_go_Ways_new)

lemma alloc_go_gocell_old:
  assumes "alloc a" "u < length (Tree a)" "c < CodeSize a" "u \<noteq> v" "Go (Tree a ! u) \<noteq> -1"
  shows "gocell (alloc_go a v) u c = gocell a u c"
proof -
  from go_in_row[OF assms(1,2,3,5)] have "nat (Go (Tree a ! u)) + c < length (Ways a)" by simp
  then show ?thesis using assms(2,4)
    by (simp add: gocell_def alloc_go_node alloc_go_Ways_old)
qed

lemma alloc_go_ext:
  assumes "v < length (Tree a)" "Go (Tree a ! v) = -1"
  shows "ext a (alloc_go a v)"
  using assms by (auto simp: ext_def alloc_go_simps alloc_go_node)

lemma alloc_go_qinv:
  assumes "qinv lab a" "v < length lab" "Go (Tree a ! v) = -1"
  shows "qinv lab (alloc_go a v)"
proof -
  from assms(1) have sh: "shape lab a" and al: "alloc a" and de: "depths lab a"
    and pa: "parents lab a" and ed: "edges lab a" and go: "gos lab a" and li: "links lab a"
    by (simp_all add: qinv_def sinv_def)
  note len = shape_len[OF sh]
  have v: "v < length (Tree a)" using assms(2) len by simp
  have "shape lab (alloc_go a v)" using sh by (simp add: shape_def alloc_go_simps)
  moreover have "alloc (alloc_go a v)" using al v assms(3) by (rule alloc_go_alloc)
  moreover have "depths lab (alloc_go a v)"
    using de len by (auto simp: depths_def alloc_go_node)
  moreover have "parents lab (alloc_go a v)"
    using pa len by (auto simp: parents_def alloc_go_node alloc_go_simps)
  moreover have "edges lab (alloc_go a v)"
    using ed len al by (simp add: edges_def alloc_go_edge alloc_go_simps)
  moreover have "gos lab (alloc_go a v)"
    unfolding gos_def
  proof (intro allI impI)
    fix u c assume u: "u < length lab" and c: "c < CodeSize (alloc_go a v)"
      and g: "Go (Tree (alloc_go a v) ! u) \<noteq> - 1"
    show "gocell (alloc_go a v) u c = - 1 \<or>
      (\<exists>w<length lab. gocell (alloc_go a v) u c = int w \<and>
         lab ! w = lsp (\<lambda>x. x \<in> set lab) (lab ! u @ [int c]))"
    proof (cases "u = v")
      case True
      then show ?thesis using alloc_go_gocell_new[OF v, of c] c by (simp add: alloc_go_simps)
    next
      case False
      with g u len have g': "Go (Tree a ! u) \<noteq> -1" by (simp add: alloc_go_node)
      from u len c have "gocell (alloc_go a v) u c = gocell a u c"
        using alloc_go_gocell_old[OF al _ _ False g', of c] by (simp add: alloc_go_simps)
      then show ?thesis using go u c g' by (simp add: gos_def alloc_go_simps)
    qed
  qed
  moreover have "links lab (alloc_go a v)"
    using li len by (auto simp: links_def alloc_go_node)
  ultimately show ?thesis by (simp add: qinv_def sinv_def)
qed

subsection \<open>Writing a \<open>Go\<close> cell\<close>

lemma set_go_simps:
  "CodeSize (set_go a k x) = CodeSize a" "CodeMap (set_go a k x) = CodeMap a"
  "Tree (set_go a k x) = Tree a" "length (Ways (set_go a k x)) = length (Ways a)"
  "slot (set_go a k x) u b = slot a u b"
  by (simp_all add: set_go_def slot_def)

lemma set_go_ext: "ext a (set_go a k x)"
  by (simp add: ext_def set_go_simps)

lemma set_go_alloc: "alloc a \<Longrightarrow> alloc (set_go a k x)"
  by (simp add: alloc_def set_go_simps)

lemma set_go_edge:
  assumes "alloc a" "v < length (Tree a)" "c < CodeSize a" "Go (Tree a ! v) \<noteq> -1"
    "u < length (Tree a)" "d < CodeSize a"
  shows "edge (set_go a (nat (Go (Tree a ! v)) + c) x) u d = edge a u d"
proof (cases "Next (Tree a ! u) = -1")
  case True
  then show ?thesis by (simp add: edge_def set_go_simps)
next
  case False
  have "nat (slot a u False) + d \<noteq> nat (slot a v True) + c"
    using assms False by (intro cell_neq) (auto simp: slot_def)
  then show ?thesis using False by (simp add: edge_def set_go_def slot_def)
qed

lemma set_go_gocell:
  assumes "alloc a" "v < length (Tree a)" "c < CodeSize a" "Go (Tree a ! v) \<noteq> -1"
    "u < length (Tree a)" "d < CodeSize a" "Go (Tree a ! u) \<noteq> -1"
  shows "gocell (set_go a (nat (Go (Tree a ! v)) + c) x) u d =
    (if u = v \<and> d = c then x else gocell a u d)"
proof (cases "u = v")
  case True
  from go_in_row[OF assms(1,2,3,4)] have "nat (Go (Tree a ! v)) + c < length (Ways a)" by simp
  then show ?thesis using True by (auto simp: gocell_def set_go_def)
next
  case False
  have "nat (slot a u True) + d \<noteq> nat (slot a v True) + c"
    using assms False by (intro cell_neq) (auto simp: slot_def)
  then show ?thesis using False by (simp add: gocell_def set_go_def slot_def)
qed

lemma set_go_qinv:
  assumes "qinv lab a" "v < length lab" "c < CodeSize a" "Go (Tree a ! v) \<noteq> -1"
    "w < length lab" "lab ! w = lsp (\<lambda>x. x \<in> set lab) (lab ! v @ [int c])"
  shows "qinv lab (set_go a (nat (Go (Tree a ! v)) + c) (int w))"
proof -
  let ?a = "set_go a (nat (Go (Tree a ! v)) + c) (int w)"
  from assms(1) have sh: "shape lab a" and al: "alloc a" and de: "depths lab a"
    and pa: "parents lab a" and ed: "edges lab a" and go: "gos lab a" and li: "links lab a"
    by (simp_all add: qinv_def sinv_def)
  note len = shape_len[OF sh]
  have v: "v < length (Tree a)" using assms(2) len by simp
  have "shape lab ?a" using sh by (simp add: shape_def set_go_simps)
  moreover have "alloc ?a" using al by (rule set_go_alloc)
  moreover have "depths lab ?a" using de by (simp add: depths_def set_go_simps)
  moreover have "parents lab ?a" using pa by (simp add: parents_def set_go_simps)
  moreover have "edges lab ?a"
    using ed len set_go_edge[OF al v assms(3,4)] by (simp add: edges_def set_go_simps)
  moreover have "gos lab ?a"
    unfolding gos_def
  proof (intro allI impI)
    fix u d assume u: "u < length lab" and d: "d < CodeSize ?a" and g: "Go (Tree ?a ! u) \<noteq> - 1"
    from u len d g have "gocell ?a u d = (if u = v \<and> d = c then int w else gocell a u d)"
      using set_go_gocell[OF al v assms(3,4), of u d] by (simp add: set_go_simps)
    then show "gocell ?a u d = - 1 \<or>
      (\<exists>w<length lab. gocell ?a u d = int w \<and> lab ! w = lsp (\<lambda>x. x \<in> set lab) (lab ! u @ [int d]))"
      using go u d g assms(5,6) by (auto simp: gos_def set_go_simps)
  qed
  moreover have "links lab ?a" using li by (simp add: links_def set_go_simps)
  ultimately show ?thesis by (simp add: qinv_def sinv_def)
qed

subsection \<open>Writing a suffix link\<close>

lemma set_link_simps:
  "CodeSize (set_link a v x) = CodeSize a" "CodeMap (set_link a v x) = CodeMap a"
  "length (Tree (set_link a v x)) = length (Tree a)" "Ways (set_link a v x) = Ways a"
  by (simp_all add: set_link_def)

lemma set_link_node:
  "u < length (Tree a) \<Longrightarrow> Tree (set_link a v x) ! u =
     (if u = v then (Tree a ! v)\<lparr>SuffLink := x\<rparr> else Tree a ! u)"
  by (simp add: set_link_def nth_list_update)

lemma set_link_reads:
  assumes "u < length (Tree a)"
  shows "slot (set_link a v x) u b = slot a u b" "edge (set_link a v x) u c = edge a u c"
    "gocell (set_link a v x) u c = gocell a u c"
  using assms by (simp_all add: slot_def edge_def gocell_def set_link_node set_link_simps)

lemma set_link_ext: "ext a (set_link a v x)"
  by (auto simp: ext_def set_link_simps set_link_node)

lemma set_link_qinv:
  assumes "qinv lab a" "v < length lab" "w < length lab"
    "lab ! w = lsp (\<lambda>x. x \<in> set lab) (tl (lab ! v))"
  shows "qinv lab (set_link a v (int w))"
proof -
  let ?a = "set_link a v (int w)"
  from assms(1) have sh: "shape lab a" and al: "alloc a" and de: "depths lab a"
    and pa: "parents lab a" and ed: "edges lab a" and go: "gos lab a" and li: "links lab a"
    by (simp_all add: qinv_def sinv_def)
  note len = shape_len[OF sh]
  have "shape lab ?a" using sh by (simp add: shape_def set_link_simps)
  moreover have "alloc ?a" using al by (simp add: alloc_def set_link_simps set_link_reads)
  moreover have "depths lab ?a" using de len by (auto simp: depths_def set_link_node)
  moreover have "parents lab ?a" using pa len by (auto simp: parents_def set_link_node set_link_simps)
  moreover have "edges lab ?a" using ed len by (simp add: edges_def set_link_reads set_link_simps)
  moreover have "gos lab ?a" using go len by (auto simp: gos_def set_link_reads set_link_simps set_link_node)
  moreover have "links lab ?a" using li len assms(2,3,4) by (auto simp: links_def set_link_node)
  ultimately show ?thesis by (simp add: qinv_def sinv_def)
qed

section \<open>The resolvers\<close>

lemma resolve_Link:
  "resolve (Link s) a =
     do {
       node \<leftarrow> at (Tree a) (Idx s);
       a1 \<leftarrow> (if SuffLink node = -1 then
                if Idx s = 0 \<or> Parent node = 0 then Some (set_link a (Idx s) 0)
                else if Parent node < 0 then None
                else do {
                  (p, a') \<leftarrow> resolve (Link (TState_of (nat (Parent node)) 0 (-1))) a;
                  (t, a'') \<leftarrow> resolve (Switch (ParentCode node) p) a';
                  Some (set_link a'' (Idx s) (int (Idx t)))
                }
              else Some a);
       link_result (Idx s) a1
     }"
proof (cases "Idx s < length (Tree a)")
  case True
  then have at: "at (Tree a) (Idx s) = Some (Tree a ! Idx s)" by (simp add: at_def)
  show ?thesis
    unfolding link_result_def[abs_def] set_link_def
    by (subst resolve.simps) (simp add: at Let_def cong: if_cong split del: if_split)
next
  case False
  then have at: "at (Tree a) (Idx s) = None" by (simp add: at_def)
  show ?thesis by (subst resolve.simps) (simp add: at)
qed

lemma resolve_Switch:
  "resolve (Switch code v) a =
     (if code < CodeSize a then
        do {
          node0 \<leftarrow> at (Tree a) (Idx v);
          let a1 = (if Go node0 = -1 then alloc_go a (Idx v) else a);
          let node = Tree a1 ! Idx v;
          cached \<leftarrow> at_off (Ways a1) (Go node + int code);
          a2 \<leftarrow> (if cached = -1 then
                   do {
                     literal \<leftarrow> (if Next node = -1 then Some (-1)
                                 else at_off (Ways a1) (Next node + int code));
                     if literal = -1 then
                       if IsRoot v then Some (set_go a1 (nat (Go node + int code)) 0)
                       else do {
                         (l, a') \<leftarrow> resolve (Link v) a1;
                         (t, a'') \<leftarrow> resolve (Switch code l) a';
                         if nat (Go node + int code) < length (Ways a'')
                         then Some (set_go a'' (nat (Go node + int code)) (int (Idx t)))
                         else None
                       }
                     else Some (set_go a1 (nat (Go node + int code)) literal)
                   }
                 else Some a1);
          switch_result (Go node + int code) a2
        }
      else None)"
proof (cases "Idx v < length (Tree a)")
  case True
  then have at: "at (Tree a) (Idx v) = Some (Tree a ! Idx v)" by (simp add: at_def)
  show ?thesis
    unfolding switch_result_def[abs_def] set_go_def alloc_go_def
    by (subst resolve.simps) (simp add: at Let_def cong: if_cong split del: if_split)
next
  case False
  then have at: "at (Tree a) (Idx v) = None" by (simp add: at_def)
  show ?thesis by (subst resolve.simps) (simp add: at)
qed

lemma at_Some: "i < length xs \<Longrightarrow> at xs i = Some (xs ! i)"
  by (simp add: at_def)

lemma at_off_Some: "0 \<le> i \<Longrightarrow> nat i < length xs \<Longrightarrow> at_off xs i = Some (xs ! nat i)"
  by (simp add: at_off_def)

lemma at_off_int: "k < length xs \<Longrightarrow> at_off xs (int k) = Some (xs ! k)"
  by (simp add: at_off_def)

lemma ext_fields:
  assumes "ext a a'" "v < length (Tree a)"
  shows "Next (Tree a' ! v) = Next (Tree a ! v)" "IsLeaf (Tree a' ! v) = IsLeaf (Tree a ! v)"
    "ParentCode (Tree a' ! v) = ParentCode (Tree a ! v)" "Parent (Tree a' ! v) = Parent (Tree a ! v)"
    "Depth (Tree a' ! v) = Depth (Tree a ! v)"
  using assms by (simp_all add: ext_def)

lemma ext_Go: "ext a a' \<Longrightarrow> v < length (Tree a) \<Longrightarrow> Go (Tree a ! v) \<noteq> -1 \<Longrightarrow> Go (Tree a' ! v) = Go (Tree a ! v)"
  by (simp add: ext_def)

lemma ext_sizes:
  assumes "ext a a'"
  shows "CodeSize a' = CodeSize a" "CodeMap a' = CodeMap a" "length (Tree a') = length (Tree a)"
  using assms by (simp_all add: ext_def)

lemma qinv_len: "qinv lab a \<Longrightarrow> length (Tree a) = length lab"
  by (simp add: qinv_def sinv_def shape_len)

lemma link_result_ok:
  assumes q: "qinv lab a1" and e: "ext a a1" and v: "v < length lab" and w: "w < length lab"
    and sl: "SuffLink (Tree a1 ! v) = int w"
    and lw: "lab ! w = lsp (\<lambda>x. x \<in> set lab) (tl (lab ! v))"
  shows "\<exists>r. link_result v a1 = Some r \<and> link_ok lab a v r"
proof -
  have len1: "length (Tree a1) = length lab" using q by (rule qinv_len)
  have len: "length (Tree a) = length lab" using e len1 by (simp add: ext_def)
  have "link_result v a1 = Some (TState_of w (Depth (Tree a1 ! v)) (IsLeaf (Tree a1 ! w)), a1)"
    using v w len1 sl by (simp add: link_result_def at_Some at_off_int)
  moreover have "link_ok lab a v (TState_of w (Depth (Tree a1 ! v)) (IsLeaf (Tree a1 ! w)), a1)"
    using q e v w lw len ext_fields[OF e] by (simp add: link_ok_def TState_of_def)
  ultimately show ?thesis by blast
qed

lemma switch_result_ok:
  assumes q: "qinv lab a2" and e: "ext a a2" and v: "v < length lab" and c: "c < CodeSize a2"
    and g: "Go (Tree a2 ! v) \<noteq> -1" and w: "w < length lab"
    and gc: "gocell a2 v c = int w"
    and lw: "lab ! w = lsp (\<lambda>x. x \<in> set lab) (lab ! v @ [int c])"
  shows "\<exists>r. switch_result (Go (Tree a2 ! v) + int c) a2 = Some r \<and> switch_ok lab a c v r"
proof -
  have len2: "length (Tree a2) = length lab" using q by (rule qinv_len)
  have len: "length (Tree a) = length lab" using e len2 by (simp add: ext_def)
  have al: "alloc a2" using q by (simp add: qinv_def sinv_def)
  from go_in_row[OF al _ c g] v len2
  have g0: "0 \<le> Go (Tree a2 ! v)" and gl: "nat (Go (Tree a2 ! v)) + c < length (Ways a2)" by simp_all
  have n: "nat (Go (Tree a2 ! v) + int c) = nat (Go (Tree a2 ! v)) + c" using g0 by linarith
  have "at_off (Ways a2) (Go (Tree a2 ! v) + int c) = Some (int w)"
    using g0 gl gc n by (simp add: at_off_def gocell_def)
  then have "switch_result (Go (Tree a2 ! v) + int c) a2 =
      Some (TState_of w (Depth (Tree a2 ! w)) (IsLeaf (Tree a2 ! w)), a2)"
    using w len2 by (simp add: switch_result_def at_off_int)
  moreover have "switch_ok lab a c v (TState_of w (Depth (Tree a2 ! w)) (IsLeaf (Tree a2 ! w)), a2)"
    using q e v w lw len ext_fields[OF e] by (simp add: switch_ok_def TState_of_def)
  ultimately show ?thesis by blast
qed

lemma link_step:
  assumes q: "qinv lab a" and v: "Idx s < length lab"
    and IH_link: "\<And>s' b. qinv lab b \<Longrightarrow> Idx s' < length lab \<Longrightarrow>
        length (lab ! Idx s') < length (lab ! Idx s) \<Longrightarrow>
        \<exists>r. resolve (Link s') b = Some r \<and> link_ok lab b (Idx s') r"
    and IH_switch: "\<And>c s' b. qinv lab b \<Longrightarrow> Idx s' < length lab \<Longrightarrow> c < CodeSize b \<Longrightarrow>
        length (lab ! Idx s') < length (lab ! Idx s) \<Longrightarrow>
        \<exists>r. resolve (Switch c s') b = Some r \<and> switch_ok lab b c (Idx s') r"
  shows "\<exists>r. resolve (Link s) a = Some r \<and> link_ok lab a (Idx s) r"
proof -
  let ?v = "Idx s" and ?P = "\<lambda>x. x \<in> set lab"
  let ?node = "Tree a ! ?v"
  have len: "length (Tree a) = length lab" using q by (rule qinv_len)
  have sh: "shape lab a" and pa: "parents lab a" and li: "links lab a" and si: "sinv lab a"
    using q by (simp_all add: qinv_def sinv_def)
  have pc: "prefix_closed ?P" using si by (rule sinv_prefix_closed)
  have at: "at (Tree a) ?v = Some ?node" using v len by (simp add: at_Some)
  show ?thesis
  proof (cases "SuffLink ?node = -1")
    case False
    with li v obtain w where w: "w < length lab" "SuffLink ?node = int w"
      "lab ! w = lsp ?P (tl (lab ! ?v))" by (auto simp: links_def)
    have "resolve (Link s) a = link_result ?v a"
      by (subst resolve_Link) (simp add: at False)
    then show ?thesis using link_result_ok[OF q ext_refl v w] by simp
  next
    case True
    show ?thesis
    proof (cases "?v = 0 \<or> Parent ?node = 0")
      case base: True
      have tl0: "tl (lab ! ?v) = []"
      proof (cases "?v = 0")
        case True then show ?thesis using sh by (simp add: shape_0)
      next
        case False
        with base have p0: "Parent ?node = 0" by simp
        from False pa v have "lab ! ?v = lab ! nat (Parent ?node) @ [int (ParentCode ?node)]"
          by (simp add: parents_def)
        with p0 sh show ?thesis by (simp add: shape_0)
      qed
      have z: "0 < length lab" using sh by (rule shape_pos)
      have lw: "lab ! 0 = lsp ?P (tl (lab ! ?v))" using sh tl0 by (simp add: shape_0)
      have q1: "qinv lab (set_link a ?v (int 0))" using q v z lw by (rule set_link_qinv)
      have sl: "SuffLink (Tree (set_link a ?v (int 0)) ! ?v) = int 0"
        using v len by (simp add: set_link_node)
      have "resolve (Link s) a = link_result ?v (set_link a ?v 0)"
        using base by (subst resolve_Link) (simp add: at True)
      then show ?thesis using link_result_ok[OF q1 set_link_ext v z sl lw] by simp
    next
      case rec: False
      then have v0: "0 < ?v" and pn0: "Parent ?node \<noteq> 0" by simp_all
      from pa v v0 have p: "0 \<le> Parent ?node" "nat (Parent ?node) < length lab"
        "ParentCode ?node < CodeSize a"
        and lv: "lab ! ?v = lab ! nat (Parent ?node) @ [int (ParentCode ?node)]"
        by (simp_all add: parents_def)
      let ?p = "nat (Parent ?node)" and ?c = "ParentCode ?node"
      have pne: "lab ! ?p \<noteq> []" using shape_root[OF sh p(2)] p(1) pn0 by simp
      let ?s' = "TState_of ?p 0 (-1)"
      have i1: "Idx ?s' = ?p" by (simp add: TState_of_def)
      have "length (lab ! Idx ?s') < length (lab ! ?v)" using lv by (simp add: i1)
      from IH_link[OF q _ this] p(2) obtain pl a' where
        r1: "resolve (Link ?s') a = Some (pl, a')" and ok1: "link_ok lab a ?p (pl, a')"
        by (auto simp: i1)
      from ok1 have q': "qinv lab a'" and e1: "ext a a'" and pl: "Idx pl < length lab"
        and lpl: "lab ! Idx pl = lsp ?P (tl (lab ! ?p))" by (simp_all add: link_ok_def)
      have "length (lab ! Idx pl) < length (lab ! ?p)" using lpl lsp_strict[OF pne] by simp
      then have m2: "length (lab ! Idx pl) < length (lab ! ?v)" using lv by simp
      have c': "?c < CodeSize a'" using p(3) e1 by (simp add: ext_def)
      from IH_switch[OF q' pl c' m2] obtain t a'' where
        r2: "resolve (Switch ?c pl) a' = Some (t, a'')" and ok2: "switch_ok lab a' ?c (Idx pl) (t, a'')"
        by auto
      from ok2 have q'': "qinv lab a''" and e2: "ext a' a''" and t: "Idx t < length lab"
        and lt: "lab ! Idx t = lsp ?P (lab ! Idx pl @ [int ?c])" by (simp_all add: switch_ok_def)
      have "lsp ?P (tl (lab ! ?v)) = lsp ?P (tl (lab ! ?p) @ [int ?c])" using lv pne by simp
      also have "\<dots> = lsp ?P (lsp ?P (tl (lab ! ?p)) @ [int ?c])" by (rule lsp_step[OF pc])
      finally have lw: "lab ! Idx t = lsp ?P (tl (lab ! ?v))" using lt lpl by simp
      let ?a1 = "set_link a'' ?v (int (Idx t))"
      have q1: "qinv lab ?a1" using q'' v t lw by (rule set_link_qinv)
      have e: "ext a ?a1" using e1 e2 set_link_ext by (blast intro: ext_trans)
      have len'': "length (Tree a'') = length lab" using q'' by (rule qinv_len)
      have sl: "SuffLink (Tree ?a1 ! ?v) = int (Idx t)" using v len'' by (simp add: set_link_node)
      have "resolve (Link s) a = link_result ?v ?a1"
        using rec p(1) by (subst resolve_Link) (simp add: at True r1 r2)
      then show ?thesis using link_result_ok[OF q1 e v t sl lw] by simp
    qed
  qed
qed

lemma switch_step:
  assumes q: "qinv lab a" and v: "Idx s < length lab" and c: "c < CodeSize a"
    and IH_link: "\<And>b. qinv lab b \<Longrightarrow> \<exists>r. resolve (Link s) b = Some r \<and> link_ok lab b (Idx s) r"
    and IH_switch: "\<And>s' b. qinv lab b \<Longrightarrow> Idx s' < length lab \<Longrightarrow> c < CodeSize b \<Longrightarrow>
        length (lab ! Idx s') < length (lab ! Idx s) \<Longrightarrow>
        \<exists>r. resolve (Switch c s') b = Some r \<and> switch_ok lab b c (Idx s') r"
  shows "\<exists>r. resolve (Switch c s) a = Some r \<and> switch_ok lab a c (Idx s) r"
proof -
  let ?v = "Idx s" and ?P = "\<lambda>x. x \<in> set lab"
  have len: "length (Tree a) = length lab" using q by (rule qinv_len)
  have va: "?v < length (Tree a)" using v len by simp
  have at: "at (Tree a) ?v = Some (Tree a ! ?v)" using va by (rule at_Some)
  define a1 where "a1 = (if Go (Tree a ! ?v) = -1 then alloc_go a ?v else a)"
  have q1: "qinv lab a1" using q v alloc_go_qinv[of lab a ?v] by (simp add: a1_def)
  have e1: "ext a a1" using va alloc_go_ext[of ?v a] ext_refl[of a] by (simp add: a1_def)
  have len1: "length (Tree a1) = length lab" using q1 by (rule qinv_len)
  have v1: "?v < length (Tree a1)" using v len1 by simp
  have c1: "c < CodeSize a1" using c e1 by (simp add: ext_def)
  define node where "node = Tree a1 ! ?v"
  have g: "Go node \<noteq> -1" using va by (simp add: node_def a1_def alloc_go_node)
  have sh: "shape lab a1" and al: "alloc a1" and ed: "edges lab a1" and go: "gos lab a1"
    and si: "sinv lab a1" using q1 by (simp_all add: qinv_def sinv_def)
  have pc: "prefix_closed ?P" using si by (rule sinv_prefix_closed)
  from go_in_row[OF al v1 c1] g
  have g0: "0 \<le> Go node" and gl: "nat (Go node) + c < length (Ways a1)" by (simp_all add: node_def)
  have k: "nat (Go node + int c) = nat (Go node) + c" using g0 by linarith
  have cached: "at_off (Ways a1) (Go node + int c) = Some (gocell a1 ?v c)"
    using g0 gl k by (simp add: at_off_def gocell_def node_def)
  have literal: "(if Next node = -1 then Some (-1) else at_off (Ways a1) (Next node + int c))
      = Some (edge a1 ?v c)"
  proof (cases "Next node = -1")
    case True then show ?thesis by (simp add: edge_def node_def)
  next
    case False
    from edge_in_row[OF al v1 c1] False
    have "0 \<le> Next node" "nat (Next node) + c < length (Ways a1)" by (simp_all add: node_def)
    moreover from this have "nat (Next node + int c) = nat (Next node) + c" by linarith
    ultimately show ?thesis using False by (simp add: at_off_def edge_def node_def)
  qed
  have unfold: "resolve (Switch c s) a =
      (if gocell a1 ?v c = -1 then
         (if edge a1 ?v c = -1 then
            if IsRoot s then Some (set_go a1 (nat (Go node) + c) 0)
            else do {
              (l, a') \<leftarrow> resolve (Link s) a1;
              (t, a'') \<leftarrow> resolve (Switch c l) a';
              if nat (Go node) + c < length (Ways a'')
              then Some (set_go a'' (nat (Go node) + c) (int (Idx t)))
              else None
            }
          else Some (set_go a1 (nat (Go node) + c) (edge a1 ?v c)))
       else Some a1) \<bind> switch_result (Go node + int c)"
    using c by (subst resolve_Switch)
      (simp add: at Let_def a1_def[symmetric] node_def[symmetric] cached literal k
        cong: if_cong split del: if_split)
  have fin: "\<exists>r. switch_result (Go node + int c) a2 = Some r \<and> switch_ok lab a c ?v r"
    if "qinv lab a2" "ext a1 a2" "w < length lab" "gocell a2 ?v c = int w"
      "lab ! w = lsp ?P (lab ! ?v @ [int c])" for a2 w
  proof -
    have e: "ext a a2" using e1 that(2) by (rule ext_trans)
    have G: "Go (Tree a2 ! ?v) = Go node" using ext_Go[OF that(2) v1] g by (simp add: node_def)
    have c2: "c < CodeSize a2" using c e by (simp add: ext_def)
    show ?thesis
      using switch_result_ok[OF that(1) e v c2 _ that(3,4,5)] g by (simp add: G)
  qed
  show ?thesis
  proof (cases "gocell a1 ?v c = -1")
    case False
    with go v c1 g obtain w where w: "w < length lab" "gocell a1 ?v c = int w"
      "lab ! w = lsp ?P (lab ! ?v @ [int c])" by (auto simp: gos_def node_def)
    from fin[OF q1 ext_refl w] show ?thesis by (simp add: unfold False)
  next
    case True
    have setgo: "\<exists>r. switch_result (Go node + int c) (set_go b (nat (Go node) + c) (int w)) = Some r
        \<and> switch_ok lab a c ?v r"
      if "qinv lab b" "ext a1 b" "w < length lab" "lab ! w = lsp ?P (lab ! ?v @ [int c])" for b w
    proof -
      have lenb: "length (Tree b) = length lab" using that(1) by (rule qinv_len)
      have vb: "?v < length (Tree b)" using v lenb by simp
      have G: "Go (Tree b ! ?v) = Go node" using ext_Go[OF that(2) v1] g by (simp add: node_def)
      have cb: "c < CodeSize b" using c1 that(2) by (simp add: ext_def)
      have gb: "Go (Tree b ! ?v) \<noteq> -1" using G g by simp
      have alb: "alloc b" using that(1) by (simp add: qinv_def sinv_def)
      have qn: "qinv lab (set_go b (nat (Go node) + c) (int w))"
        using set_go_qinv[OF that(1) v cb gb that(3,4)] by (simp add: G)
      have en: "ext a1 (set_go b (nat (Go node) + c) (int w))"
        using that(2) set_go_ext by (rule ext_trans)
      have "gocell (set_go b (nat (Go node) + c) (int w)) ?v c = int w"
        using set_go_gocell[OF alb vb cb gb vb cb gb, of "int w"] by (simp add: G)
      from fin[OF qn en that(3) this that(4)] show ?thesis .
    qed
    from ed v c1 have E: "(edge a1 ?v c = -1 \<and> lab ! ?v @ [int c] \<notin> set lab) \<or>
        (\<exists>u<length lab. edge a1 ?v c = int u \<and> lab ! u = lab ! ?v @ [int c])"
      by (simp add: edges_def)
    show ?thesis
    proof (cases "edge a1 ?v c = -1")
      case False
      with E obtain u where u: "u < length lab" "edge a1 ?v c = int u" "lab ! u = lab ! ?v @ [int c]"
        by auto
      have "lab ! ?v @ [int c] \<in> set lab" using u(1,3) by (metis nth_mem)
      then have "lab ! u = lsp ?P (lab ! ?v @ [int c])" using u(3) by (simp add: lsp_id)
      from setgo[OF q1 ext_refl u(1) this] show ?thesis using False by (simp add: unfold True u(2))
    next
      case noedge: True
      with E have notin: "lab ! ?v @ [int c] \<notin> set lab" by auto
      have z: "0 < length lab" using sh by (rule shape_pos)
      show ?thesis
      proof (cases "?v = 0")
        case True
        have "lab ! ?v = []" using True sh by (simp add: shape_0)
        with notin have "lsp ?P (lab ! ?v @ [int c]) = []" by simp
        then have "lab ! 0 = lsp ?P (lab ! ?v @ [int c])" using sh by (simp add: shape_0)
        from setgo[OF q1 ext_refl z this] show ?thesis
          using True noedge \<open>gocell a1 ?v c = -1\<close> by (simp add: unfold IsRoot_def)
      next
        case False
        have vne: "lab ! ?v \<noteq> []" using shape_root[OF sh v] False by simp
        from IH_link[OF q1] obtain l a' where
          r1: "resolve (Link s) a1 = Some (l, a')" and ok1: "link_ok lab a1 ?v (l, a')" by auto
        from ok1 have q': "qinv lab a'" and e': "ext a1 a'" and l: "Idx l < length lab"
          and ll: "lab ! Idx l = lsp ?P (tl (lab ! ?v))" by (simp_all add: link_ok_def)
        have m: "length (lab ! Idx l) < length (lab ! ?v)" using ll lsp_strict[OF vne] by simp
        have c': "c < CodeSize a'" using c1 e' by (simp add: ext_def)
        from IH_switch[OF q' l c' m] obtain t a'' where
          r2: "resolve (Switch c l) a' = Some (t, a'')" and ok2: "switch_ok lab a' c (Idx l) (t, a'')"
          by auto
        from ok2 have q'': "qinv lab a''" and e'': "ext a' a''" and t: "Idx t < length lab"
          and lt: "lab ! Idx t = lsp ?P (lab ! Idx l @ [int c])" by (simp_all add: switch_ok_def)
        have lw: "lab ! Idx t = lsp ?P (lab ! ?v @ [int c])"
          using lsp_fallback[OF pc vne notin] lt ll by simp
        have e: "ext a1 a''" using e' e'' by (rule ext_trans)
        have len'': "length (Tree a'') = length lab" using q'' by (rule qinv_len)
        have G: "Go (Tree a'' ! ?v) = Go node" using ext_Go[OF e v1] g by (simp add: node_def)
        have "alloc a''" using q'' by (simp add: qinv_def sinv_def)
        from go_in_row[OF this, of ?v c] v len'' c' e'' g G
        have inb: "nat (Go node) + c < length (Ways a'')" by (simp add: ext_def)
        from setgo[OF q'' e t lw] show ?thesis
          using False noedge \<open>gocell a1 ?v c = -1\<close> inb by (simp add: unfold r1 r2 IsRoot_def)
      qed
    qed
  qed
qed

lemma resolve_total: "qinv lab a \<Longrightarrow> resolve_ok lab r a"
proof (induction "rank lab r" arbitrary: r a rule: less_induct)
  case less
  show ?case
  proof (cases r)
    case (Link s)
    have "\<exists>res. resolve (Link s) a = Some res \<and> link_ok lab a (Idx s) res" if v: "Idx s < length lab"
    proof (rule link_step[OF less.prems v])
      fix s' :: TState and b
      assume "qinv lab b" "Idx s' < length lab" "length (lab ! Idx s') < length (lab ! Idx s)"
      then show "\<exists>r. resolve (Link s') b = Some r \<and> link_ok lab b (Idx s') r"
        using less.hyps[of "Link s'" b] Link by (simp add: rank_def resolve_ok_def)
    next
      fix c and s' :: TState and b
      assume "qinv lab b" "Idx s' < length lab" "c < CodeSize b"
        "length (lab ! Idx s') < length (lab ! Idx s)"
      then show "\<exists>r. resolve (Switch c s') b = Some r \<and> switch_ok lab b c (Idx s') r"
        using less.hyps[of "Switch c s'" b] Link by (simp add: rank_def resolve_ok_def)
    qed
    then show ?thesis using Link by (simp add: resolve_ok_def)
  next
    case (Switch c s)
    have "\<exists>res. resolve (Switch c s) a = Some res \<and> switch_ok lab a c (Idx s) res"
      if v: "Idx s < length lab" and c: "c < CodeSize a"
    proof (rule switch_step[OF less.prems v c])
      fix b assume "qinv lab b"
      then show "\<exists>r. resolve (Link s) b = Some r \<and> link_ok lab b (Idx s) r"
        using less.hyps[of "Link s" b] Switch v by (simp add: rank_def resolve_ok_def)
    next
      fix s' :: TState and b
      assume "qinv lab b" "Idx s' < length lab" "c < CodeSize b"
        "length (lab ! Idx s') < length (lab ! Idx s)"
      then show "\<exists>r. resolve (Switch c s') b = Some r \<and> switch_ok lab b c (Idx s') r"
        using less.hyps[of "Switch c s'" b] Switch by (simp add: rank_def resolve_ok_def)
    qed
    then show ?thesis using Switch by (simp add: resolve_ok_def)
  qed
qed

lemma GetLink_ok:
  assumes "qinv lab a" "Idx s < length lab"
  shows "\<exists>r. GetLink s a = Some r \<and> link_ok lab a (Idx s) r"
  using resolve_total[OF assms(1), of "Link s"] assms(2) by (simp add: resolve_ok_def GetLink_def)

lemma SwitchStateCode_ok:
  assumes "qinv lab a" "Idx s < length lab" "c < CodeSize a"
  shows "\<exists>r. SwitchStateCode c s a = Some r \<and> switch_ok lab a c (Idx s) r"
  using resolve_total[OF assms(1), of "Switch c s"] assms(2,3)
  by (simp add: resolve_ok_def SwitchStateCode_def)

section \<open>The code map\<close>

lemma assign_codes_inv:
  assumes "assign_codes w a = Some a'" "code_inv a"
  shows "code_inv a' \<and> mapped a' w \<and> Tree a' = Tree a \<and> Ways a' = Ways a \<and>
    (\<forall>i. CodeMap a i \<noteq> -1 \<longrightarrow> CodeMap a' i = CodeMap a i)"
  using assms
proof (induction w arbitrary: a)
  case Nil
  then show ?case by (simp add: mapped_def)
next
  case (Cons c w)
  let ?i = "char_index c"
  from Cons.prems(1) have r: "?i < CODEMAP_SIZE" by (simp split: if_splits)
  define b where "b = (if CodeMap a ?i = -1
      then a\<lparr>CodeMap := (CodeMap a)(?i := int (CodeSize a)), CodeSize := CodeSize a + 1\<rparr> else a)"
  have rec: "assign_codes w b = Some a'" using Cons.prems(1) r by (simp add: b_def)
  have cb: "code_inv b"
  proof (cases "CodeMap a ?i = -1")
    case False then show ?thesis using Cons.prems(2) by (simp add: b_def)
  next
    case True
    have "CodeMap b = (CodeMap a)(?i := int (CodeSize a))" "CodeSize b = CodeSize a + 1"
      using True by (simp_all add: b_def)
    note B = this
    from Cons.prems(2) have A1: "\<And>i. CodeMap a i = -1 \<or> (0 \<le> CodeMap a i \<and> CodeMap a i < int (CodeSize a))"
      and A2: "\<And>i j. CodeMap a i = CodeMap a j \<Longrightarrow> CodeMap a i \<noteq> -1 \<Longrightarrow> i = j"
      and A3: "\<And>i. CODEMAP_SIZE \<le> i \<Longrightarrow> CodeMap a i = -1"
      unfolding code_inv_def by blast+
    have 1: "CodeMap b i = -1 \<or> (0 \<le> CodeMap b i \<and> CodeMap b i < int (CodeSize b))" for i
      using A1[of i] by (cases "i = ?i") (auto simp: B)
    have 2: "i = j" if "CodeMap b i = CodeMap b j" "CodeMap b i \<noteq> -1" for i j
    proof (cases "i = ?i")
      case True
      show ?thesis
      proof (cases "j = ?i")
        case True with \<open>i = ?i\<close> show ?thesis by simp
      next
        case False
        with that True have "CodeMap a j = int (CodeSize a)" by (simp add: B)
        with A1[of j] show ?thesis by simp
      qed
    next
      case False
      show ?thesis
      proof (cases "j = ?i")
        case True
        with that False have "CodeMap a i = int (CodeSize a)" by (simp add: B)
        with A1[of i] show ?thesis by simp
      next
        case F: False
        with False that show ?thesis using A2[of i j] by (simp add: B)
      qed
    qed
    have 3: "CodeMap b i = -1" if "CODEMAP_SIZE \<le> i" for i
      using that r A3[of i] by (simp add: B)
    show ?thesis unfolding code_inv_def using 1 2 3 by blast
  qed
  have tb: "Tree b = Tree a" "Ways b = Ways a" by (simp_all add: b_def)
  have mono: "CodeMap a i \<noteq> -1 \<longrightarrow> CodeMap b i = CodeMap a i" for i by (auto simp: b_def)
  have ib: "CodeMap b ?i \<noteq> -1" by (simp add: b_def)
  from Cons.IH[OF rec cb] have IH: "code_inv a'" "mapped a' w" "Tree a' = Tree b" "Ways a' = Ways b"
    "\<And>i. CodeMap b i \<noteq> -1 \<Longrightarrow> CodeMap a' i = CodeMap b i" by auto
  have "CodeMap a' ?i \<noteq> -1" using IH(5)[OF ib] ib by simp
  then have "mapped a' (c # w)" using IH(2) r by (simp add: mapped_def)
  moreover have "CodeMap a i \<noteq> -1 \<longrightarrow> CodeMap a' i = CodeMap a i" for i
    using mono[of i] IH(5)[of i] by auto
  ultimately show ?case using IH(1,3,4) tb by simp
qed

lemma mapped_mono:
  "mapped a s \<Longrightarrow> (\<forall>i. CodeMap a i \<noteq> -1 \<longrightarrow> CodeMap a' i = CodeMap a i) \<Longrightarrow> mapped a' s"
  by (auto simp: mapped_def)

lemma assign_all_inv:
  assumes "assign_all ws a = Some a'" "code_inv a"
  shows "code_inv a' \<and> (\<forall>w\<in>set ws. mapped a' w) \<and> Tree a' = Tree a \<and> Ways a' = Ways a \<and>
    (\<forall>i. CodeMap a i \<noteq> -1 \<longrightarrow> CodeMap a' i = CodeMap a i)"
  using assms
proof (induction ws arbitrary: a)
  case Nil
  then show ?case by simp
next
  case (Cons w ws)
  from Cons.prems(1) obtain b where b: "assign_codes w a = Some b" "assign_all ws b = Some a'"
    by (auto split: Option.bind_splits)
  from assign_codes_inv[OF b(1) Cons.prems(2)] have 1: "code_inv b" "mapped b w" "Tree b = Tree a"
    "Ways b = Ways a" "\<forall>i. CodeMap a i \<noteq> -1 \<longrightarrow> CodeMap b i = CodeMap a i" by auto
  from Cons.IH[OF b(2) 1(1)] have 2: "code_inv a'" "\<forall>w\<in>set ws. mapped a' w" "Tree a' = Tree b"
    "Ways a' = Ways b" "\<forall>i. CodeMap b i \<noteq> -1 \<longrightarrow> CodeMap a' i = CodeMap b i" by auto
  have "mapped a' w" using 1(2) 2(5) by (rule mapped_mono)
  moreover have "\<forall>i. CodeMap a i \<noteq> -1 \<longrightarrow> CodeMap a' i = CodeMap a i" using 1(5) 2(5) by auto
  ultimately show ?case using 1 2 by simp
qed

lemma code_range:
  assumes "code_inv a" "mapped a s" "c \<in> set s"
  shows "0 \<le> CodeMap a (char_index c)" "nat (CodeMap a (char_index c)) < CodeSize a"
proof -
  let ?k = "CodeMap a (char_index c)"
  from assms(2,3) have "?k \<noteq> -1" unfolding mapped_def by blast
  moreover from assms(1) have "?k = -1 \<or> (0 \<le> ?k \<and> ?k < int (CodeSize a))"
    unfolding code_inv_def by blast
  ultimately show "0 \<le> ?k" "nat ?k < CodeSize a" by auto
qed

section \<open>The steps of \<open>Reset\<close>\<close>

subsection \<open>Allocating a \<open>Next\<close> row\<close>

lemma alloc_next_simps:
  "CodeSize (alloc_next a v) = CodeSize a" "CodeMap (alloc_next a v) = CodeMap a"
  "length (Tree (alloc_next a v)) = length (Tree a)"
  "length (Ways (alloc_next a v)) = length (Ways a) + CodeSize a"
  by (simp_all add: alloc_next_def)

lemma alloc_next_node:
  "u < length (Tree a) \<Longrightarrow> Tree (alloc_next a v) ! u =
     (if u = v then (Tree a ! v)\<lparr>Next := int (length (Ways a))\<rparr> else Tree a ! u)"
  by (simp add: alloc_next_def nth_list_update)

lemma alloc_next_slot:
  "u < length (Tree a) \<Longrightarrow> slot (alloc_next a v) u b =
     (if u = v \<and> \<not> b then int (length (Ways a)) else slot a u b)"
  by (simp add: slot_def alloc_next_node)

lemma alloc_next_Ways_old: "k < length (Ways a) \<Longrightarrow> Ways (alloc_next a v) ! k = Ways a ! k"
  by (simp add: alloc_next_def nth_append)

lemma alloc_next_Ways_new: "c < CodeSize a \<Longrightarrow> Ways (alloc_next a v) ! (length (Ways a) + c) = -1"
  by (simp add: alloc_next_def nth_append)

lemma alloc_old_end:
  assumes "alloc a" "w < length (Tree a)" "slot a w d \<noteq> -1"
  shows "slot a w d + int (CodeSize a) \<le> int (length (Ways a))"
proof -
  from assms have "0 \<le> slot a w d \<and> nat (slot a w d) + CodeSize a \<le> length (Ways a)"
    unfolding alloc_def by blast
  then show ?thesis by linarith
qed

lemma alloc_next_alloc:
  assumes "alloc a" "v < length (Tree a)" "Next (Tree a ! v) = -1"
  shows "alloc (alloc_next a v)"
  unfolding alloc_def
proof (rule conjI; intro allI impI)
  fix u b assume u: "u < length (Tree (alloc_next a v))" and s: "slot (alloc_next a v) u b \<noteq> - 1"
  show "0 \<le> slot (alloc_next a v) u b \<and>
    nat (slot (alloc_next a v) u b) + CodeSize (alloc_next a v) \<le> length (Ways (alloc_next a v))"
  proof (cases "u = v \<and> \<not> b")
    case True
    then show ?thesis using u by (simp add: alloc_next_slot alloc_next_simps)
  next
    case False
    with u s have "slot a u b \<noteq> -1" by (auto simp: alloc_next_slot alloc_next_simps)
    with assms(1) u have "0 \<le> slot a u b \<and> nat (slot a u b) + CodeSize a \<le> length (Ways a)"
      by (auto simp: alloc_def alloc_next_simps)
    with False u show ?thesis by (auto simp: alloc_next_slot alloc_next_simps)
  qed
next
  fix u b u' b'
  assume u: "u < length (Tree (alloc_next a v))" "u' < length (Tree (alloc_next a v))"
    and ne: "(u, b) \<noteq> (u', b')"
    and s: "slot (alloc_next a v) u b \<noteq> - 1" "slot (alloc_next a v) u' b' \<noteq> - 1"
  note old = alloc_old_end[OF assms(1)]
  show "slot (alloc_next a v) u b + int (CodeSize (alloc_next a v)) \<le> slot (alloc_next a v) u' b' \<or>
    slot (alloc_next a v) u' b' + int (CodeSize (alloc_next a v)) \<le> slot (alloc_next a v) u b"
  proof (cases "u = v \<and> \<not> b")
    case True
    with ne have F: "\<not> (u' = v \<and> \<not> b')" by auto
    with s(2) u(2) have "slot a u' b' \<noteq> -1" by (auto simp: alloc_next_slot alloc_next_simps)
    with old u(2) have "slot a u' b' + int (CodeSize a) \<le> int (length (Ways a))"
      by (simp add: alloc_next_simps)
    with True F u show ?thesis by (auto simp: alloc_next_slot alloc_next_simps)
  next
    case False
    with s(1) u(1) have 1: "slot a u b \<noteq> -1" by (auto simp: alloc_next_slot alloc_next_simps)
    show ?thesis
    proof (cases "u' = v \<and> \<not> b'")
      case True
      from old 1 u(1) have "slot a u b + int (CodeSize a) \<le> int (length (Ways a))"
        by (simp add: alloc_next_simps)
      with True False u show ?thesis by (auto simp: alloc_next_slot alloc_next_simps)
    next
      case F2: False
      with s(2) u(2) have 2: "slot a u' b' \<noteq> -1" by (auto simp: alloc_next_slot alloc_next_simps)
      from assms(1) u ne 1 2 have "slot a u b + int (CodeSize a) \<le> slot a u' b' \<or>
          slot a u' b' + int (CodeSize a) \<le> slot a u b"
        unfolding alloc_def alloc_next_simps by blast
      with False F2 u show ?thesis by (auto simp: alloc_next_slot alloc_next_simps)
    qed
  qed
qed

lemma alloc_next_edge:
  assumes "alloc a" "u < length (Tree a)" "c < CodeSize a" "Next (Tree a ! v) = -1"
  shows "edge (alloc_next a v) u c = edge a u c"
proof (cases "u = v")
  case True
  then show ?thesis using assms(2,3,4)
    by (simp add: edge_def alloc_next_node alloc_next_Ways_new)
next
  case False
  show ?thesis
  proof (cases "Next (Tree a ! u) = -1")
    case True
    then show ?thesis using assms(2) False by (simp add: edge_def alloc_next_node)
  next
    case N: False
    from edge_in_row[OF assms(1,2,3) N] have "nat (Next (Tree a ! u)) + c < length (Ways a)" by simp
    then show ?thesis using assms(2) False N
      by (simp add: edge_def alloc_next_node alloc_next_Ways_old)
  qed
qed

lemma alloc_next_sinv:
  assumes "sinv lab a" "v < length lab" "Next (Tree a ! v) = -1"
  shows "sinv lab (alloc_next a v)"
proof -
  from assms(1) have sh: "shape lab a" and al: "alloc a" and de: "depths lab a"
    and pa: "parents lab a" and ed: "edges lab a" by (simp_all add: sinv_def)
  note len = shape_len[OF sh]
  have v: "v < length (Tree a)" using assms(2) len by simp
  have "shape lab (alloc_next a v)" using sh by (simp add: shape_def alloc_next_simps)
  moreover have "alloc (alloc_next a v)" using al v assms(3) by (rule alloc_next_alloc)
  moreover have "depths lab (alloc_next a v)"
    using de len by (auto simp: depths_def alloc_next_node)
  moreover have "parents lab (alloc_next a v)"
    using pa len by (auto simp: parents_def alloc_next_node alloc_next_simps)
  moreover have "edges lab (alloc_next a v)"
    using ed len al assms(3) by (simp add: edges_def alloc_next_edge alloc_next_simps)
  ultimately show ?thesis by (simp add: sinv_def)
qed

lemma alloc_next_fresh: "fresh a \<Longrightarrow> fresh (alloc_next a v)"
  by (auto simp: fresh_def alloc_next_simps alloc_next_node)

lemma alloc_next_leaf:
  "u < length (Tree a) \<Longrightarrow> IsLeaf (Tree (alloc_next a v) ! u) = IsLeaf (Tree a ! u)"
  by (simp add: alloc_next_node)

lemma alloc_next_Next:
  "v < length (Tree a) \<Longrightarrow> Next (Tree (alloc_next a v) ! v) \<noteq> -1"
  by (simp add: alloc_next_node)

subsection \<open>Appending a child\<close>

lemma add_child_simps:
  "CodeSize (add_child a v k d) = CodeSize a" "CodeMap (add_child a v k d) = CodeMap a"
  "length (Tree (add_child a v k d)) = Suc (length (Tree a))"
  "length (Ways (add_child a v k d)) = length (Ways a)"
  by (simp_all add: add_child_def)

lemma add_child_node_old:
  "u < length (Tree a) \<Longrightarrow> Tree (add_child a v k d) ! u = Tree a ! u"
  by (simp add: add_child_def nth_append)

lemma add_child_node_new:
  "Tree (add_child a v k d) ! length (Tree a) = TNode_new\<lparr>Parent := int v, ParentCode := k, Depth := d\<rparr>"
  by (simp add: add_child_def nth_append)

lemma add_child_slot_old: "u < length (Tree a) \<Longrightarrow> slot (add_child a v k d) u b = slot a u b"
  by (simp add: slot_def add_child_node_old)

lemma add_child_slot_new: "slot (add_child a v k d) (length (Tree a)) b = -1"
  by (simp add: slot_def add_child_node_new TNode_new_def)

lemma add_child_alloc:
  assumes "alloc a"
  shows "alloc (add_child a v k d)"
  unfolding alloc_def
proof (rule conjI; intro allI impI)
  fix u b assume u: "u < length (Tree (add_child a v k d))" and s: "slot (add_child a v k d) u b \<noteq> - 1"
  from u s have u': "u < length (Tree a)"
    using add_child_slot_new[of a v k d b] by (cases "u = length (Tree a)") (auto simp: add_child_simps)
  with s assms show "0 \<le> slot (add_child a v k d) u b \<and>
    nat (slot (add_child a v k d) u b) + CodeSize (add_child a v k d) \<le> length (Ways (add_child a v k d))"
    by (simp add: add_child_slot_old add_child_simps alloc_def)
next
  fix u b u' b'
  assume u: "u < length (Tree (add_child a v k d))" "u' < length (Tree (add_child a v k d))"
    and ne: "(u, b) \<noteq> (u', b')"
    and s: "slot (add_child a v k d) u b \<noteq> - 1" "slot (add_child a v k d) u' b' \<noteq> - 1"
  from u(1) s(1) have 1: "u < length (Tree a)"
    using add_child_slot_new[of a v k d b] by (cases "u = length (Tree a)") (auto simp: add_child_simps)
  from u(2) s(2) have 2: "u' < length (Tree a)"
    using add_child_slot_new[of a v k d b'] by (cases "u' = length (Tree a)") (auto simp: add_child_simps)
  from assms 1 2 ne s have "slot a u b + int (CodeSize a) \<le> slot a u' b' \<or>
      slot a u' b' + int (CodeSize a) \<le> slot a u b"
    unfolding alloc_def by (simp add: add_child_slot_old)
  then show "slot (add_child a v k d) u b + int (CodeSize (add_child a v k d)) \<le> slot (add_child a v k d) u' b' \<or>
    slot (add_child a v k d) u' b' + int (CodeSize (add_child a v k d)) \<le> slot (add_child a v k d) u b"
    using 1 2 by (simp add: add_child_slot_old add_child_simps)
qed

lemma add_child_edge_old:
  assumes "alloc a" "v < length (Tree a)" "k < CodeSize a" "Next (Tree a ! v) \<noteq> -1"
    "u < length (Tree a)" "c < CodeSize a"
  shows "edge (add_child a v k d) u c = (if u = v \<and> c = k then int (length (Tree a)) else edge a u c)"
proof (cases "u = v")
  case True
  from edge_in_row[OF assms(1,2,3,4)] have "nat (Next (Tree a ! v)) + k < length (Ways a)" by simp
  then show ?thesis using True assms(2,4)
    by (auto simp: edge_def add_child_node_old) (simp_all add: add_child_def)
next
  case False
  show ?thesis
  proof (cases "Next (Tree a ! u) = -1")
    case True
    then show ?thesis using False assms(5) by (simp add: edge_def add_child_node_old)
  next
    case N: False
    have "nat (slot a u False) + c \<noteq> nat (slot a v False) + k"
      using assms False N by (intro cell_neq) (auto simp: slot_def)
    then show ?thesis using False N assms(5)
      by (simp add: edge_def add_child_node_old slot_def) (simp add: add_child_def)
  qed
qed

lemma add_child_edge_new: "edge (add_child a v k d) (length (Tree a)) c = -1"
  by (simp add: edge_def add_child_node_new TNode_new_def)

lemma prefix_closed_snoc: "prefix_closed P \<Longrightarrow> P (x @ [c]) \<Longrightarrow> P x"
  unfolding prefix_closed_def by blast

lemma edges_cases:
  "edges lab a \<Longrightarrow> v < length lab \<Longrightarrow> c < CodeSize a \<Longrightarrow>
     (edge a v c = -1 \<and> lab ! v @ [int c] \<notin> set lab) \<or>
     (\<exists>u<length lab. edge a v c = int u \<and> lab ! u = lab ! v @ [int c])"
  by (simp add: edges_def)

lemma add_child_sinv:
  assumes si: "sinv lab a" and v: "v < length lab" and k: "k < CodeSize a"
    and nx: "Next (Tree a ! v) \<noteq> -1" and e: "edge a v k = -1" and d: "d = length (lab ! v) + 1"
  shows "sinv (lab @ [lab ! v @ [int k]]) (add_child a v k d)"
proof -
  let ?x = "lab ! v @ [int k]" and ?a = "add_child a v k d"
  let ?lab = "lab @ [?x]"
  from si have sh: "shape lab a" and al: "alloc a" and de: "depths lab a"
    and pa: "parents lab a" and ed: "edges lab a" by (simp_all add: sinv_def)
  note len = shape_len[OF sh]
  have n0: "0 < length lab" using sh by (rule shape_pos)
  have va: "v < length (Tree a)" using v len by simp
  have pc: "prefix_closed (\<lambda>x. x \<in> set lab)" using si by (rule sinv_prefix_closed)
  have notin: "?x \<notin> set lab" using edges_cases[OF ed v k] e by auto
  have old: "?lab ! u = lab ! u" if "u < length lab" for u using that by (simp add: nth_append)
  have new: "?lab ! length lab = ?x" by simp
  have "shape ?lab ?a"
    using sh notin n0 by (simp add: shape_def add_child_simps nth_append)
  moreover have "alloc ?a" using al by (rule add_child_alloc)
  moreover have "depths ?lab ?a"
    unfolding depths_def
  proof (intro allI impI)
    fix u assume "u < length ?lab"
    then consider "u < length lab" | "u = length lab" by fastforce
    then show "Depth (Tree ?a ! u) = length (?lab ! u)"
    proof cases
      case 1
      then show ?thesis using de len by (simp add: old add_child_node_old depths_def)
    next
      case 2
      then show ?thesis using d add_child_node_new[of a v k d] len by simp
    qed
  qed
  moreover have "parents ?lab ?a"
    unfolding parents_def
  proof (intro allI impI)
    fix u assume u: "u < length ?lab" "0 < u"
    from u(1) consider "u < length lab" | "u = length lab" by fastforce
    then show "0 \<le> Parent (Tree ?a ! u) \<and> nat (Parent (Tree ?a ! u)) < length ?lab \<and>
        ParentCode (Tree ?a ! u) < CodeSize ?a \<and>
        ?lab ! u = ?lab ! nat (Parent (Tree ?a ! u)) @ [int (ParentCode (Tree ?a ! u))]"
    proof cases
      case 1
      with pa u(2) have P: "0 \<le> Parent (Tree a ! u)" "nat (Parent (Tree a ! u)) < length lab"
        "ParentCode (Tree a ! u) < CodeSize a"
        "lab ! u = lab ! nat (Parent (Tree a ! u)) @ [int (ParentCode (Tree a ! u))]"
        by (simp_all add: parents_def)
      have T: "Tree ?a ! u = Tree a ! u" using 1 len by (simp add: add_child_node_old)
      show ?thesis using P 1 by (simp add: T old add_child_simps)
    next
      case 2
      have T: "Tree ?a ! length lab = TNode_new\<lparr>Parent := int v, ParentCode := k, Depth := d\<rparr>"
        using len add_child_node_new[of a v k d] by simp
      show ?thesis using 2 v k by (simp add: T nth_append add_child_simps)
    qed
  qed
  moreover have "edges ?lab ?a"
    unfolding edges_def
  proof (intro allI impI)
    fix u c assume u: "u < length ?lab" and c: "c < CodeSize ?a"
    then have ca: "c < CodeSize a" by (simp add: add_child_simps)
    from u consider "u < length lab" | "u = length lab" by fastforce
    then show "(edge ?a u c = - 1 \<and> ?lab ! u @ [int c] \<notin> set ?lab) \<or>
        (\<exists>w<length ?lab. edge ?a u c = int w \<and> ?lab ! w = ?lab ! u @ [int c])"
    proof cases
      case 2
      have "edge ?a u c = -1" using 2 len add_child_edge_new[of a v k d c] by simp
      moreover have "?x @ [int c] \<notin> set lab"
        using prefix_closed_snoc[OF pc, of ?x "int c"] notin by blast
      ultimately show ?thesis using 2 by simp
    next
      case 1
      then have ua: "u < length (Tree a)" using len by simp
      have E: "edge ?a u c = (if u = v \<and> c = k then int (length (Tree a)) else edge a u c)"
        using add_child_edge_old[OF al va k nx ua ca] .
      show ?thesis
      proof (cases "u = v \<and> c = k")
        case True
        have "length lab < length ?lab" by simp
        moreover have "edge ?a u c = int (length lab)" using E True len by simp
        moreover have "?lab ! length lab = ?lab ! u @ [int c]" using True v by (simp add: nth_append)
        ultimately show ?thesis by blast
      next
        case False
        from ed 1 ca have "(edge a u c = -1 \<and> lab ! u @ [int c] \<notin> set lab) \<or>
            (\<exists>w<length lab. edge a u c = int w \<and> lab ! w = lab ! u @ [int c])"
          by (simp add: edges_def)
        then show ?thesis
        proof
          assume A: "edge a u c = -1 \<and> lab ! u @ [int c] \<notin> set lab"
          have "lab ! u @ [int c] \<noteq> ?x"
          proof
            assume "lab ! u @ [int c] = ?x"
            then have "lab ! u = lab ! v" "c = k" by simp_all
            with shape_inj[OF sh 1 v] False show False by simp
          qed
          with A E False show ?thesis using 1 by (simp add: old)
        next
          assume "\<exists>w<length lab. edge a u c = int w \<and> lab ! w = lab ! u @ [int c]"
          then obtain w where w: "w < length lab" "edge a u c = int w" "lab ! w = lab ! u @ [int c]"
            by blast
          have "w < length ?lab" using w(1) by simp
          moreover have "edge ?a u c = int w" using E False w(2) by simp
          moreover have "?lab ! w = ?lab ! u @ [int c]" using w(1,3) 1 by (simp add: old)
          ultimately show ?thesis by blast
        qed
      qed
    qed
  qed
  ultimately show ?thesis by (simp add: sinv_def)
qed

lemma add_child_fresh: "fresh a \<Longrightarrow> fresh (add_child a v k d)"
  unfolding fresh_def
proof (intro allI impI)
  fix u assume f: "\<forall>v<length (Tree a). Go (Tree a ! v) = - 1 \<and> SuffLink (Tree a ! v) = - 1"
    and u: "u < length (Tree (add_child a v k d))"
  from u consider "u < length (Tree a)" | "u = length (Tree a)" by (fastforce simp: add_child_simps)
  then show "Go (Tree (add_child a v k d) ! u) = - 1 \<and> SuffLink (Tree (add_child a v k d) ! u) = - 1"
  proof cases
    case 1 then show ?thesis using f by (simp add: add_child_node_old)
  next
    case 2 then show ?thesis using add_child_node_new[of a v k d] by (simp add: TNode_new_def)
  qed
qed

lemma add_child_leaf_new: "IsLeaf (Tree (add_child a v k d) ! length (Tree a)) = -1"
  by (simp add: add_child_node_new TNode_new_def)

subsection \<open>Marking a leaf\<close>

lemma set_leaf_simps:
  "CodeSize (set_leaf a v x) = CodeSize a" "CodeMap (set_leaf a v x) = CodeMap a"
  "length (Tree (set_leaf a v x)) = length (Tree a)" "Ways (set_leaf a v x) = Ways a"
  by (simp_all add: set_leaf_def)

lemma set_leaf_node:
  "u < length (Tree a) \<Longrightarrow> Tree (set_leaf a v x) ! u =
     (if u = v then (Tree a ! v)\<lparr>IsLeaf := x\<rparr> else Tree a ! u)"
  by (simp add: set_leaf_def nth_list_update)

lemma set_leaf_reads:
  assumes "u < length (Tree a)"
  shows "slot (set_leaf a v x) u b = slot a u b" "edge (set_leaf a v x) u c = edge a u c"
  using assms by (simp_all add: slot_def edge_def set_leaf_node set_leaf_simps)

lemma set_leaf_sinv:
  assumes "sinv lab a"
  shows "sinv lab (set_leaf a v x)"
proof -
  let ?a = "set_leaf a v x"
  from assms have sh: "shape lab a" and al: "alloc a" and de: "depths lab a"
    and pa: "parents lab a" and ed: "edges lab a" by (simp_all add: sinv_def)
  note len = shape_len[OF sh]
  have "shape lab ?a" using sh by (simp add: shape_def set_leaf_simps)
  moreover have "alloc ?a" using al by (simp add: alloc_def set_leaf_simps set_leaf_reads)
  moreover have "depths lab ?a" using de len by (auto simp: depths_def set_leaf_node)
  moreover have "parents lab ?a" using pa len by (auto simp: parents_def set_leaf_node set_leaf_simps)
  moreover have "edges lab ?a" using ed len by (simp add: edges_def set_leaf_reads set_leaf_simps)
  ultimately show ?thesis by (simp add: sinv_def)
qed

lemma set_leaf_fresh: "fresh a \<Longrightarrow> fresh (set_leaf a v x)"
  by (auto simp: fresh_def set_leaf_simps set_leaf_node)

subsection \<open>Walking a word into the trie\<close>

lemma size_t_of_nonneg: "0 \<le> i \<Longrightarrow> size_t_of i = nat i"
  by (simp add: size_t_of_def)

lemma with_next_simps:
  "CodeSize (with_next a v) = CodeSize a" "CodeMap (with_next a v) = CodeMap a"
  "length (Tree (with_next a v)) = length (Tree a)"
  "u < length (Tree a) \<Longrightarrow> IsLeaf (Tree (with_next a v) ! u) = IsLeaf (Tree a ! u)"
  by (simp_all add: with_next_def alloc_next_simps alloc_next_leaf)

lemma with_next_fresh: "fresh a \<Longrightarrow> fresh (with_next a v)"
  by (simp add: with_next_def alloc_next_fresh)

lemma insert_chars_step:
  assumes si: "sinv lab a" and ci: "code_inv a" and ma: "mapped a (c # w)" and cp: "curPos < length lab"
  defines "k \<equiv> nat (CodeMap a (char_index c))"
    and "a1 \<equiv> with_next a curPos"
  shows "insert_chars (c # w) chPos curPos a =
      (if edge a1 curPos k = -1
       then insert_chars w (Suc chPos) (length (Tree a)) (add_child a1 curPos k (Suc chPos))
       else insert_chars w (Suc chPos) (nat (edge a1 curPos k)) a1)"
    and "sinv lab a1" and "k < CodeSize a" and "CodeMap a (char_index c) = int k"
    and "Next (Tree a1 ! curPos) \<noteq> -1" and "0 \<le> edge a1 curPos k \<or> edge a1 curPos k = -1"
proof -
  let ?code = "CodeMap a (char_index c)"
  have len: "length (Tree a) = length lab" using si by (simp add: sinv_def shape_len)
  have cpa: "curPos < length (Tree a)" using cp len by simp
  from code_range[OF ci ma, of c] have code0: "0 \<le> ?code" and kk: "k < CodeSize a"
    by (simp_all add: k_def)
  show "k < CodeSize a" by (rule kk)
  show ck: "?code = int k" using code0 by (simp add: k_def)
  have cat: "code_at a c = Some ?code" using ma by (simp add: code_at_def mapped_def)
  have at: "at (Tree a) curPos = Some (Tree a ! curPos)" using cpa by (rule at_Some)
  show s1: "sinv lab a1" using si cp alloc_next_sinv[of lab a curPos] by (simp add: a1_def with_next_def)
  have len1: "length (Tree a1) = length (Tree a)" by (simp add: a1_def with_next_simps)
  have cs1: "CodeSize a1 = CodeSize a" by (simp add: a1_def with_next_simps)
  show nx: "Next (Tree a1 ! curPos) \<noteq> -1" using cpa by (simp add: a1_def with_next_def alloc_next_Next)
  have al1: "alloc a1" and ed1: "edges lab a1" using s1 by (simp_all add: sinv_def)
  from edge_in_row[OF al1 _ _ nx, of k] cpa len1 kk cs1
  have n0: "0 \<le> Next (Tree a1 ! curPos)" and nl: "nat (Next (Tree a1 ! curPos)) + k < length (Ways a1)"
    by simp_all
  have off: "nat (Next (Tree a1 ! curPos) + ?code) = nat (Next (Tree a1 ! curPos)) + k"
    using n0 code0 by (simp add: k_def nat_add_distrib)
  have rd: "at_off (Ways a1) (Next (Tree a1 ! curPos) + ?code) = Some (edge a1 curPos k)"
    using n0 code0 nl nx off by (simp add: at_off_def edge_def)
  from edges_cases[OF ed1 cp, of k] kk cs1
  show e0: "0 \<le> edge a1 curPos k \<or> edge a1 curPos k = -1" by auto
  have a1': "(if Next (Tree a ! curPos) = - 1
       then a\<lparr>Tree := (Tree a)[curPos := (Tree a ! curPos)\<lparr>Next := int (length (Ways a))\<rparr>],
              Ways := Ways a @ replicate (CodeSize a) (- 1)\<rparr>
       else a) = a1" by (simp add: a1_def with_next_def alloc_next_def)
  have child: "a1\<lparr>Ways := (Ways a1)[nat (Next (Tree a1 ! curPos) + ?code) := int (length (Tree a))],
       Tree := Tree a1 @ [TNode_new\<lparr>Parent := int curPos, ParentCode := size_t_of ?code,
                                    Depth := Suc chPos\<rparr>]\<rparr> = add_child a1 curPos k (Suc chPos)"
    using code0 len1 by (simp add: add_child_def off size_t_of_nonneg k_def)
  show "insert_chars (c # w) chPos curPos a =
      (if edge a1 curPos k = -1
       then insert_chars w (Suc chPos) (length (Tree a)) (add_child a1 curPos k (Suc chPos))
       else insert_chars w (Suc chPos) (nat (edge a1 curPos k)) a1)"
  proof (cases "edge a1 curPos k = -1")
    case True
    then show ?thesis by (simp add: cat at Let_def a1' rd child len1)
  next
    case False
    with e0 have "\<not> edge a1 curPos k < 0" by simp
    with False show ?thesis by (simp add: cat at Let_def a1' rd)
  qed
qed

lemma code_inv_cong: "code_inv a \<Longrightarrow> CodeMap b = CodeMap a \<Longrightarrow> CodeSize b = CodeSize a \<Longrightarrow> code_inv b"
  by (simp add: code_inv_def)

lemma mapped_cong: "mapped a s \<Longrightarrow> CodeMap b = CodeMap a \<Longrightarrow> mapped b s"
  by (simp add: mapped_def)

lemma enc_cong: "CodeMap b = CodeMap a \<Longrightarrow> enc b s = enc a s"
  by (simp add: enc_def)

lemma prefix_nth: "prefix xs ys \<Longrightarrow> i < length xs \<Longrightarrow> ys ! i = xs ! i"
  by (auto simp: prefix_def nth_append)

lemma insert_chars_inv:
  assumes "sinv lab a" "fresh a" "code_inv a" "mapped a w" "curPos < length lab"
    "chPos = length (lab ! curPos)"
  shows "\<exists>u a' lab'. insert_chars w chPos curPos a = Some (u, a') \<and>
    grown lab a curPos (enc a w) lab' a' u"
  using assms
proof (induction w arbitrary: chPos curPos a lab)
  case Nil
  then have "grown lab a curPos (enc a []) lab a curPos" by (simp add: grown_def enc_def)
  then show ?case by auto
next
  case (Cons c w)
  define k where "k = nat (CodeMap a (char_index c))"
  define a1 where "a1 = with_next a curPos"
  note step = insert_chars_step(1)[OF Cons.prems(1,3,4,5), of chPos, folded k_def a1_def]
  note facts = insert_chars_step(2-5)[OF Cons.prems(1,3,4,5), folded k_def a1_def]
  have s1: "sinv lab a1" and kk: "k < CodeSize a" and ck: "CodeMap a (char_index c) = int k"
    and nx: "Next (Tree a1 ! curPos) \<noteq> -1" using facts by simp_all
  have len: "length (Tree a) = length lab" using Cons.prems(1) by (simp add: sinv_def shape_len)
  have cm1: "CodeMap a1 = CodeMap a" and cs1: "CodeSize a1 = CodeSize a"
    and len1: "length (Tree a1) = length lab" by (simp_all add: a1_def with_next_simps len)
  have f1: "fresh a1" using Cons.prems(2) by (simp add: a1_def with_next_fresh)
  have mw: "mapped a w" using Cons.prems(4) by (simp add: mapped_def)
  have encw: "enc a (c # w) = int k # enc a w" by (simp add: enc_def ck)
  have leaf1: "IsLeaf (Tree a1 ! v) = IsLeaf (Tree a ! v)" if "v < length lab" for v
    using that len by (simp add: a1_def with_next_simps)
  show ?case
  proof (cases "edge a1 curPos k = -1")
    case True
    let ?x = "lab ! curPos @ [int k]"
    let ?lab2 = "lab @ [?x]" and ?a2 = "add_child a1 curPos k (Suc chPos)"
    have s2: "sinv ?lab2 ?a2"
      using s1 Cons.prems(5) _ nx True by (rule add_child_sinv) (simp_all add: kk cs1 Cons.prems(6))
    have f2: "fresh ?a2" using f1 by (rule add_child_fresh)
    have cm2: "CodeMap ?a2 = CodeMap a" "CodeSize ?a2 = CodeSize a"
      by (simp_all add: add_child_simps cm1 cs1)
    have c2: "code_inv ?a2" using Cons.prems(3) cm2 by (rule code_inv_cong)
    have m2: "mapped ?a2 w" using mw cm2(1) by (rule mapped_cong)
    have p2: "length lab < length ?lab2" by simp
    have ch2: "Suc chPos = length (?lab2 ! length lab)" using Cons.prems(6) by simp
    from Cons.IH[OF s2 f2 c2 m2 p2 ch2] obtain u a' lab' where
      r: "insert_chars w (Suc chPos) (length lab) ?a2 = Some (u, a')"
      and g: "grown ?lab2 ?a2 (length lab) (enc ?a2 w) lab' a' u" by blast
    have e2: "enc ?a2 w = enc a w" using cm2(1) by (rule enc_cong)
    from g have G: "sinv lab' a'" "fresh a'" "CodeMap a' = CodeMap a" "CodeSize a' = CodeSize a"
      "prefix ?lab2 lab'" "u < length lab'" "lab' ! u = ?x @ enc a w"
      and Gset: "\<forall>x\<in>set lab'. x \<in> set ?lab2 \<or> (\<exists>z. x = ?x @ z \<and> prefix z (enc a w))"
      and Gold: "\<forall>v<length ?lab2. IsLeaf (Tree a' ! v) = IsLeaf (Tree ?a2 ! v)"
      and Gnew: "\<forall>v. length ?lab2 \<le> v \<longrightarrow> v < length lab' \<longrightarrow> IsLeaf (Tree a' ! v) = -1"
      by (simp_all add: grown_def e2 cm2)
    have P: "prefix lab lab'" using G(5) by (metis prefix_order.trans prefixI)
    have S: "\<forall>x\<in>set lab'. x \<in> set lab \<or> (\<exists>z. x = lab ! curPos @ z \<and> prefix z (int k # enc a w))"
    proof
      fix x assume "x \<in> set lab'"
      with Gset consider "x \<in> set lab" | "x = ?x" | z where "x = ?x @ z" "prefix z (enc a w)"
        by auto
      then show "x \<in> set lab \<or> (\<exists>z. x = lab ! curPos @ z \<and> prefix z (int k # enc a w))"
      proof cases
        case 1 then show ?thesis by simp
      next
        case 2
        then have "x = lab ! curPos @ [int k] \<and> prefix [int k] (int k # enc a w)" by simp
        then show ?thesis by blast
      next
        case 3
        then have "x = lab ! curPos @ (int k # z) \<and> prefix (int k # z) (int k # enc a w)" by simp
        then show ?thesis by blast
      qed
    qed
    have Lold: "\<forall>v<length lab. IsLeaf (Tree a' ! v) = IsLeaf (Tree a ! v)"
    proof (intro allI impI)
      fix v assume v: "v < length lab"
      then have "IsLeaf (Tree a' ! v) = IsLeaf (Tree ?a2 ! v)" using Gold by simp
      also have "\<dots> = IsLeaf (Tree a1 ! v)" using v len1 by (simp add: add_child_node_old)
      finally show "IsLeaf (Tree a' ! v) = IsLeaf (Tree a ! v)" using leaf1[OF v] by simp
    qed
    have Lnew: "\<forall>v. length lab \<le> v \<longrightarrow> v < length lab' \<longrightarrow> IsLeaf (Tree a' ! v) = -1"
    proof (intro allI impI)
      fix v assume v: "length lab \<le> v" "v < length lab'"
      show "IsLeaf (Tree a' ! v) = -1"
      proof (cases "v = length lab")
        case True
        then have "IsLeaf (Tree a' ! v) = IsLeaf (Tree ?a2 ! length lab)" using Gold by simp
        then show ?thesis using add_child_leaf_new[of a1 curPos k "Suc chPos"] len1 by simp
      next
        case False
        with v have "length ?lab2 \<le> v" by simp
        with Gnew v(2) show ?thesis by blast
      qed
    qed
    have "grown lab a curPos (enc a (c # w)) lab' a' u"
      unfolding grown_def encw using G(1,2,3,4,6,7) P S Lold Lnew by simp
    moreover have "insert_chars (c # w) chPos curPos a = Some (u, a')"
      using step True r len by simp
    ultimately show ?thesis by blast
  next
    case False
    have ed1: "edges lab a1" using s1 by (simp add: sinv_def)
    from edges_cases[OF ed1 Cons.prems(5), of k] False kk cs1
    obtain u' where u': "u' < length lab" "edge a1 curPos k = int u'" "lab ! u' = lab ! curPos @ [int k]"
      by auto
    have c1: "code_inv a1" using Cons.prems(3) cm1 cs1 by (rule code_inv_cong)
    have m1: "mapped a1 w" using mw cm1 by (rule mapped_cong)
    have ch: "Suc chPos = length (lab ! u')" using u'(3) Cons.prems(6) by simp
    from Cons.IH[OF s1 f1 c1 m1 u'(1) ch] obtain u a' lab' where
      r: "insert_chars w (Suc chPos) u' a1 = Some (u, a')"
      and g: "grown lab a1 u' (enc a1 w) lab' a' u" by blast
    have e1: "enc a1 w = enc a w" using cm1 by (rule enc_cong)
    from g have G: "sinv lab' a'" "fresh a'" "CodeMap a' = CodeMap a" "CodeSize a' = CodeSize a"
      "prefix lab lab'" "u < length lab'" "lab' ! u = lab ! curPos @ int k # enc a w"
      and Gset: "\<forall>x\<in>set lab'. x \<in> set lab \<or> (\<exists>z. x = lab ! u' @ z \<and> prefix z (enc a w))"
      and Gold: "\<forall>v<length lab. IsLeaf (Tree a' ! v) = IsLeaf (Tree a1 ! v)"
      and Gnew: "\<forall>v. length lab \<le> v \<longrightarrow> v < length lab' \<longrightarrow> IsLeaf (Tree a' ! v) = -1"
      by (simp_all add: grown_def e1 cm1 cs1 u'(3))
    have S: "\<forall>x\<in>set lab'. x \<in> set lab \<or> (\<exists>z. x = lab ! curPos @ z \<and> prefix z (int k # enc a w))"
    proof
      fix x assume "x \<in> set lab'"
      with Gset consider "x \<in> set lab" | z where "x = lab ! u' @ z" "prefix z (enc a w)"
        by auto
      then show "x \<in> set lab \<or> (\<exists>z. x = lab ! curPos @ z \<and> prefix z (int k # enc a w))"
      proof cases
        case 1 then show ?thesis by simp
      next
        case 2
        then have "x = lab ! curPos @ (int k # z) \<and> prefix (int k # z) (int k # enc a w)"
          using u'(3) by simp
        then show ?thesis by blast
      qed
    qed
    have Lold: "\<forall>v<length lab. IsLeaf (Tree a' ! v) = IsLeaf (Tree a ! v)"
      using Gold leaf1 by simp
    have "grown lab a curPos (enc a (c # w)) lab' a' u"
      unfolding grown_def encw using G S Lold Gnew by simp
    moreover have "insert_chars (c # w) chPos curPos a = Some (u, a')"
      using step False r u'(2) by simp
    ultimately show ?thesis by blast
  qed
qed

subsection \<open>Words, and \<open>Reset\<close>\<close>

lemma prefix_closed_prefix:
  assumes "prefix_closed P" "P y" "prefix x y"
  shows "P x"
proof -
  from assms(3) obtain z where "y = x @ z" by (auto simp: prefix_def)
  with assms(2) show ?thesis
  proof (induction z arbitrary: y rule: rev_induct)
    case Nil then show ?case by simp
  next
    case (snoc c z)
    then have "P ((x @ z) @ [c])" by simp
    with assms(1) have "P (x @ z)" by (rule prefix_closed_snoc)
    with snoc.IH show ?case by simp
  qed
qed

lemma trie_of_word: "trie_of ws lab a \<Longrightarrow> w \<in> set ws \<Longrightarrow> enc a w \<in> set lab"
  by (auto simp: trie_of_def trie_prefix_def)

lemma insert_word_inv:
  assumes b: "binv ws lab a" and m: "mapped a w" and l: "length w < UINT_LIMIT"
  shows "\<exists>a' lab'. insert_word (length ws) w a = Some a' \<and> binv (ws @ [w]) lab' a' \<and>
    CodeMap a' = CodeMap a \<and> CodeSize a' = CodeSize a"
proof -
  from b have si: "sinv lab a" and fr: "fresh a" and ci: "code_inv a" and tr: "trie_of ws lab a"
    and le: "leaves ws lab a" by (simp_all add: binv_def)
  have sh: "shape lab a" using si by (simp add: sinv_def)
  have z: "0 < length lab" using sh by (rule shape_pos)
  have l0: "lab ! 0 = []" using sh by (rule shape_0)
  have ch: "0 = length (lab ! 0)" using l0 by simp
  from insert_chars_inv[OF si fr ci m z ch] obtain u a1 lab' where
    r: "insert_chars w 0 0 a = Some (u, a1)" and g: "grown lab a 0 (enc a w) lab' a1 u" by blast
  from g have G: "sinv lab' a1" "fresh a1" "CodeMap a1 = CodeMap a" "CodeSize a1 = CodeSize a"
    "prefix lab lab'" "u < length lab'" "lab' ! u = enc a w"
    and Gset: "\<forall>x\<in>set lab'. x \<in> set lab \<or> prefix x (enc a w)"
    and Gold: "\<forall>v<length lab. IsLeaf (Tree a1 ! v) = IsLeaf (Tree a ! v)"
    and Gnew: "\<forall>v. length lab \<le> v \<longrightarrow> v < length lab' \<longrightarrow> IsLeaf (Tree a1 ! v) = -1"
    by (simp_all add: grown_def l0)
  have sh1: "shape lab' a1" using G(1) by (simp add: sinv_def)
  have len1: "length (Tree a1) = length lab'" using sh1 by (rule shape_len)
  let ?a = "set_leaf a1 u (int (length ws))"
  have ins: "insert_word (length ws) w a = Some ?a"
    using l r G(6) len1 by (simp add: insert_word_def at_Some set_leaf_def)
  have cm: "CodeMap ?a = CodeMap a" "CodeSize ?a = CodeSize a" using G(3,4) by (simp_all add: set_leaf_simps)
  have en: "enc ?a = enc a" using cm(1) by (simp add: enc_def fun_eq_iff)
  have pc: "prefix_closed (\<lambda>x. x \<in> set lab')" using G(1) by (rule sinv_prefix_closed)
  have sub: "set lab \<subseteq> set lab'" using G(5) by (rule set_mono_prefix)
  have wl: "enc a w \<in> set lab'" using G(6,7) by (metis nth_mem)
  have "sinv lab' ?a" using G(1) by (rule set_leaf_sinv)
  moreover have "fresh ?a" using G(2) by (rule set_leaf_fresh)
  moreover have "code_inv ?a" using ci cm by (rule code_inv_cong)
  moreover have "trie_of (ws @ [w]) lab' ?a"
    unfolding trie_of_def en
  proof (intro allI iffI)
    fix x assume "x \<in> set lab'"
    with Gset have "x \<in> set lab \<or> prefix x (enc a w)" by blast
    then show "trie_prefix (map (enc a) (ws @ [w])) x"
      using tr by (auto simp: trie_of_def trie_prefix_def)
  next
    fix x assume "trie_prefix (map (enc a) (ws @ [w])) x"
    then consider "trie_prefix (map (enc a) ws) x" | "prefix x (enc a w)"
      by (auto simp: trie_prefix_def)
    then show "x \<in> set lab'"
    proof cases
      case 1 then show ?thesis using tr sub by (auto simp: trie_of_def)
    next
      case 2 with pc wl show ?thesis by (rule prefix_closed_prefix)
    qed
  qed
  moreover have "leaves (ws @ [w]) lab' ?a"
    unfolding leaves_def en
  proof (intro allI impI)
    fix v assume v: "v < length lab'"
    show "(IsLeaf (Tree ?a ! v) = - 1 \<and> lab' ! v \<notin> enc a ` set (ws @ [w])) \<or>
       (\<exists>i<length (ws @ [w]). IsLeaf (Tree ?a ! v) = int i \<and> enc a ((ws @ [w]) ! i) = lab' ! v \<and>
          (\<forall>j<length (ws @ [w]). enc a ((ws @ [w]) ! j) = lab' ! v \<longrightarrow> j \<le> i))"
    proof (cases "v = u")
      case True
      have "IsLeaf (Tree ?a ! v) = int (length ws)" using True v len1 by (simp add: set_leaf_node)
      moreover have "enc a ((ws @ [w]) ! length ws) = lab' ! v" using True G(7) by simp
      ultimately show ?thesis
        by (intro disjI2 exI[of _ "length ws"] conjI) simp_all
    next
      case False
      have L: "IsLeaf (Tree ?a ! v) = IsLeaf (Tree a1 ! v)" using False v len1 by (simp add: set_leaf_node)
      have nw: "lab' ! v \<noteq> enc a w" using shape_inj[OF sh1 v G(6)] False G(7) by auto
      show ?thesis
      proof (cases "v < length lab")
        case True
        have lv: "lab' ! v = lab ! v" using G(5) True by (rule prefix_nth)
        have L': "IsLeaf (Tree ?a ! v) = IsLeaf (Tree a ! v)" using L Gold True by simp
        from le True have "(IsLeaf (Tree a ! v) = -1 \<and> lab ! v \<notin> enc a ` set ws) \<or>
          (\<exists>i<length ws. IsLeaf (Tree a ! v) = int i \<and> enc a (ws ! i) = lab ! v \<and>
             (\<forall>j<length ws. enc a (ws ! j) = lab ! v \<longrightarrow> j \<le> i))" by (simp add: leaves_def)
        then show ?thesis
        proof
          assume "IsLeaf (Tree a ! v) = -1 \<and> lab ! v \<notin> enc a ` set ws"
          then show ?thesis using nw lv L' by auto
        next
          assume "\<exists>i<length ws. IsLeaf (Tree a ! v) = int i \<and> enc a (ws ! i) = lab ! v \<and>
             (\<forall>j<length ws. enc a (ws ! j) = lab ! v \<longrightarrow> j \<le> i)"
          then obtain i where i: "i < length ws" "IsLeaf (Tree a ! v) = int i" "enc a (ws ! i) = lab ! v"
            "\<forall>j<length ws. enc a (ws ! j) = lab ! v \<longrightarrow> j \<le> i" by blast
          have A4: "\<forall>j<length (ws @ [w]). enc a ((ws @ [w]) ! j) = lab' ! v \<longrightarrow> j \<le> i"
          proof (intro allI impI)
            fix j assume j: "j < length (ws @ [w])" "enc a ((ws @ [w]) ! j) = lab' ! v"
            show "j \<le> i"
            proof (cases "j = length ws")
              case True with j(2) nw show ?thesis by simp
            next
              case False
              with j have "j < length ws" "enc a (ws ! j) = lab ! v" by (simp_all add: nth_append lv)
              with i(4) show ?thesis by blast
            qed
          qed
          have A1: "i < length (ws @ [w])" using i(1) by simp
          have A3: "enc a ((ws @ [w]) ! i) = lab' ! v" using i(1,3) lv by (simp add: nth_append)
          have A2: "IsLeaf (Tree ?a ! v) = int i" using L' i(2) by simp
          show ?thesis
            by (rule disjI2, rule exI[of _ i], intro conjI) (fact A1, fact A2, fact A3, fact A4)
        qed
      next
        case False
        then have ge: "length lab \<le> v" by simp
        have L': "IsLeaf (Tree ?a ! v) = -1" using L Gnew ge v by simp
        from G(5) obtain rest where rest: "lab' = lab @ rest" by (auto simp: prefix_def)
        have "distinct lab'" using sh1 by (simp add: shape_def)
        with rest have disj: "set lab \<inter> set rest = {}" by simp
        have "lab' ! v \<in> set rest" using rest ge v by (simp add: nth_append)
        with disj have "lab' ! v \<notin> set lab" by blast
        moreover have "enc a ` set ws \<subseteq> set lab" using trie_of_word[OF tr] by blast
        ultimately have "lab' ! v \<notin> enc a ` set (ws @ [w])" using nw by auto
        with L' show ?thesis by simp
      qed
    qed
  qed
  ultimately have "binv (ws @ [w]) lab' ?a" by (simp add: binv_def)
  with ins cm show ?thesis by blast
qed

lemma insert_words_inv:
  assumes "binv ws lab a" "\<forall>w\<in>set rest. mapped a w \<and> length w < UINT_LIMIT"
  shows "\<exists>a' lab'. insert_words (length ws) rest a = Some a' \<and> binv (ws @ rest) lab' a' \<and>
    CodeMap a' = CodeMap a \<and> CodeSize a' = CodeSize a"
  using assms
proof (induction rest arbitrary: ws lab a)
  case Nil
  then show ?case by auto
next
  case (Cons w rest)
  from Cons.prems(2) have m: "mapped a w" and l: "length w < UINT_LIMIT" by simp_all
  from insert_word_inv[OF Cons.prems(1) m l] obtain a1 lab1 where
    1: "insert_word (length ws) w a = Some a1" "binv (ws @ [w]) lab1 a1"
    "CodeMap a1 = CodeMap a" "CodeSize a1 = CodeSize a" by blast
  have "\<forall>w\<in>set rest. mapped a1 w \<and> length w < UINT_LIMIT"
    using Cons.prems(2) 1(3) by (auto intro: mapped_cong)
  from Cons.IH[OF 1(2) this] obtain a' lab' where
    2: "insert_words (length (ws @ [w])) rest a1 = Some a'" "binv ((ws @ [w]) @ rest) lab' a'"
    "CodeMap a' = CodeMap a1" "CodeSize a' = CodeSize a1" by blast
  have "insert_words (length ws) (w # rest) a = Some a'" using 1(1) 2(1) by simp
  with 2 1 show ?case by auto
qed

lemma insert_words_lengths:
  "insert_words n ws a = Some a' \<Longrightarrow> \<forall>w\<in>set ws. length w < UINT_LIMIT"
proof (induction ws arbitrary: n a)
  case Nil then show ?case by simp
next
  case (Cons w ws)
  from Cons.prems obtain b where b: "insert_word n w a = Some b" "insert_words (n + 1) ws b = Some a'"
    by (auto split: Option.bind_splits)
  from b(1) have "length w < UINT_LIMIT" by (simp add: insert_word_def split: if_splits)
  with Cons.IH[OF b(2)] show ?case by simp
qed

lemma Reset_binv:
  assumes "Reset ws = Some a"
  shows "\<exists>lab. binv ws lab a \<and> (\<forall>w\<in>set ws. mapped a w)"
proof -
  from assms obtain ac where ac: "assign_all ws TAhoCorasick_new = Some ac"
    "insert_words 0 ws ac = Some a"
    by (auto simp: Reset_def TAhoCorasick_new_def split: if_splits Option.bind_splits)
  have c0: "code_inv TAhoCorasick_new" by (simp add: code_inv_def TAhoCorasick_new_def)
  from assign_all_inv[OF ac(1) c0] have A: "code_inv ac" "\<forall>w\<in>set ws. mapped ac w"
    "Tree ac = [TNode_new]" "Ways ac = []" by (simp_all add: TAhoCorasick_new_def)
  have "shape [[]] ac" by (simp add: shape_def A)
  moreover have "alloc ac" by (simp add: alloc_def A slot_def TNode_new_def)
  moreover have "depths [[]] ac" by (simp add: depths_def A TNode_new_def)
  moreover have "parents [[]] ac" by (simp add: parents_def)
  moreover have "edges [[]] ac" by (simp add: edges_def edge_def A TNode_new_def)
  ultimately have s: "sinv [[]] ac" by (simp add: sinv_def)
  have f: "fresh ac" by (simp add: fresh_def A TNode_new_def)
  have t: "trie_of [] [[]] ac" by (simp add: trie_of_def trie_prefix_def)
  have l: "leaves [] [[]] ac" by (simp add: leaves_def A TNode_new_def)
  have b0: "binv [] [[]] ac" using s f A(1) t l by (simp add: binv_def)
  from insert_words_lengths[OF ac(2)] A(2)
  have "\<forall>w\<in>set ws. mapped ac w \<and> length w < UINT_LIMIT" by simp
  from insert_words_inv[OF b0 this] ac(2) obtain lab where
    "binv ws lab a" "CodeMap a = CodeMap ac" by auto
  with A(2) show ?thesis by (auto intro: mapped_cong)
qed

section \<open>Symbols and codes\<close>

lemma of_char_less: "(of_char c :: nat) < 256"
proof -
  have "(of_char c :: nat) mod 256 = of_char c" by simp
  then show ?thesis by (metis mod_less_divisor zero_less_numeral)
qed

lemma p64: "(2::int) ^ 64 = 18446744073709551616" by simp

lemma wrap_aux: "nat (int n - 256 + 2 ^ 64) = n + 18446744073709551360"
  unfolding p64 by linarith

lemma index_aux:
  fixes n m :: nat
  assumes "n < 256" "m < 256"
    "(if n < 128 then n else n + 18446744073709551360) = (if m < 128 then m else m + 18446744073709551360)"
  shows "n = m"
proof (cases "n < 128")
  case True
  note n = this
  show ?thesis
  proof (cases "m < 128")
    case True with n assms(3) show ?thesis by simp
  next
    case False
    with n assms(3) have "n = m + 18446744073709551360" by simp
    with n show ?thesis by linarith
  qed
next
  case False
  note n = this
  show ?thesis
  proof (cases "m < 128")
    case True
    with n assms(3) have "n + 18446744073709551360 = m" by simp
    with True show ?thesis by linarith
  next
    case False with n assms(3) show ?thesis by simp
  qed
qed

lemma char_index_eq:
  "char_index c = (if (of_char c :: nat) < 128 then of_char c else of_char c + 18446744073709551360)"
proof -
  have i: "(of_char c :: int) = int (of_char c)" by (simp add: of_nat_of_char)
  have b: "(of_char c :: nat) < 256" by (rule of_char_less)
  show ?thesis
  proof (cases "(of_char c :: nat) < 128")
    case True
    then show ?thesis by (simp add: char_index_def char_value_def size_t_of_def i)
  next
    case False
    then have "char_value c = int (of_char c) - 256" by (simp add: char_value_def i)
    moreover have "\<not> 0 \<le> int (of_char c) - 256" using b by linarith
    moreover have "nat (int (of_char c) - 256 + 2 ^ 64) = of_char c + 18446744073709551360"
      by (rule wrap_aux)
    ultimately show ?thesis using False by (simp add: char_index_def size_t_of_def)
  qed
qed

lemma char_index_inj: "char_index c = char_index d \<Longrightarrow> c = d"
proof -
  assume e: "char_index c = char_index d"
  have "(of_char c :: nat) = of_char d"
    using e unfolding char_index_eq by (rule index_aux[OF of_char_less of_char_less])
  then show "c = d" by simp
qed

lemma char_index_in_range: "char_index c < CODEMAP_SIZE \<longleftrightarrow> (of_char c :: nat) < 128"
proof (cases "(of_char c :: nat) < 128")
  case True
  then show ?thesis by (simp add: char_index_eq CODEMAP_SIZE_def)
next
  case False
  then have "char_index c = of_char c + 18446744073709551360" by (simp add: char_index_eq)
  then have "\<not> char_index c < 256" by linarith
  with False show ?thesis by (simp add: CODEMAP_SIZE_def)
qed

lemma code_eq_char:
  assumes "code_inv a" "CodeMap a (char_index d) \<noteq> -1"
    "CodeMap a (char_index c) = CodeMap a (char_index d)"
  shows "c = d"
proof -
  from assms have "char_index c = char_index d" unfolding code_inv_def by metis
  then show ?thesis by (rule char_index_inj)
qed

lemma enc_simps [simp]: "enc a [] = []" "enc a (c # s) = CodeMap a (char_index c) # enc a s"
  "enc a (s @ t) = enc a s @ enc a t" "length (enc a s) = length s"
  by (simp_all add: enc_def)

lemma enc_Nil_iff [simp]: "enc a x = [] \<longleftrightarrow> x = []"
  by (simp add: enc_def)

lemma enc_inj:
  assumes "code_inv a" "mapped a p" "enc a x = enc a p"
  shows "x = p"
  using assms(2,3)
proof (induction x arbitrary: p)
  case Nil then show ?case by (simp add: enc_def)
next
  case (Cons c x)
  then obtain d p' where p: "p = d # p'" by (cases p) (auto simp: enc_def)
  with Cons.prems have e: "CodeMap a (char_index c) = CodeMap a (char_index d)" "enc a x = enc a p'"
    and m: "CodeMap a (char_index d) \<noteq> -1" "mapped a p'" by (simp_all add: mapped_def)
  from code_eq_char[OF assms(1) m(1) e(1)] Cons.IH[OF m(2) e(2)] p show ?case by simp
qed

lemma mapped_take: "mapped a p \<Longrightarrow> mapped a (take n p)"
  unfolding mapped_def by (meson in_set_takeD)

lemma enc_take: "take n (enc a p) = enc a (take n p)"
  by (simp add: enc_def take_map)

lemma enc_prefix:
  assumes "code_inv a" "mapped a p"
  shows "prefix (enc a x) (enc a p) \<longleftrightarrow> prefix x p"
proof
  assume "prefix (enc a x) (enc a p)"
  then obtain r where "enc a p = enc a x @ r" by (auto simp: prefix_def)
  then have "enc a x = take (length x) (enc a p)" by simp
  then have "enc a x = enc a (take (length x) p)" by (simp add: enc_take)
  with assms have "x = take (length x) p" by (intro enc_inj mapped_take)
  then show "prefix x p" using take_is_prefix[of "length x" p] by simp
next
  assume "prefix x p" then show "prefix (enc a x) (enc a p)" by (auto simp: prefix_def)
qed

lemma trie_prefix_enc:
  assumes "code_inv a" "\<forall>w\<in>set ws. mapped a w"
  shows "trie_prefix (map (enc a) ws) (enc a x) \<longleftrightarrow> trie_prefix ws x"
  using assms by (auto simp: trie_prefix_def enc_prefix)

lemma lsp_map:
  assumes "\<And>y. P' (map f y) \<longleftrightarrow> P y"
  shows "lsp P' (map f x) = map f (lsp P x)"
proof (induction x)
  case Nil then show ?case by simp
next
  case (Cons c x)
  have "P' (f c # map f x) \<longleftrightarrow> P (c # x)" using assms[of "c # x"] by simp
  with Cons show ?case by simp
qed

lemma trie_prefix_closed: "prefix_closed (trie_prefix ws)"
  unfolding prefix_closed_def trie_prefix_def
proof (intro conjI allI impI)
  show "[] = [] \<or> (\<exists>p\<in>set ws. prefix [] p)" by simp
next
  fix x :: "'a list" and c
  assume "x @ [c] = [] \<or> (\<exists>p\<in>set ws. prefix (x @ [c]) p)"
  then obtain p where "p \<in> set ws" "prefix (x @ [c]) p" by auto
  then have "p \<in> set ws" "prefix x p" by (auto dest: append_prefixD)
  then show "x = [] \<or> (\<exists>p\<in>set ws. prefix x p)" by blast
qed

lemma trie_prefix_Nil [simp]: "trie_prefix ws []"
  by (simp add: trie_prefix_def)

lemma trie_prefix_word: "w \<in> set ws \<Longrightarrow> trie_prefix ws w"
  by (auto simp: trie_prefix_def)

lemma state_str_step: "state_str ws (x @ [c]) = state_str ws (state_str ws x @ [c])"
  unfolding state_str_def by (rule lsp_step[OF trie_prefix_closed])

lemma state_str_id: "trie_prefix ws x \<Longrightarrow> state_str ws x = x"
  unfolding state_str_def by (rule lsp_id)

lemma state_str_trie: "trie_prefix ws (state_str ws x)"
  unfolding state_str_def by (rule lsp_P) simp

lemma state_str_suffix: "suffix (state_str ws x) x"
  unfolding state_str_def by (rule lsp_suffix)

lemma state_str_unmapped:
  assumes "\<forall>w\<in>set ws. c \<notin> set w"
  shows "state_str ws (x @ [c]) = []"
proof (rule ccontr)
  let ?z = "state_str ws (x @ [c])"
  assume ne: "?z \<noteq> []"
  from state_str_suffix[of ws "x @ [c]"] obtain r where r: "x @ [c] = r @ ?z"
    by (auto simp: suffix_def)
  with ne have "last ?z = c" by (metis last_appendR last_snoc)
  with ne have cz: "c \<in> set ?z" using last_in_set[of ?z] by simp
  from state_str_trie[of ws "x @ [c]"] ne obtain w where w: "w \<in> set ws" "prefix ?z w"
    by (auto simp: trie_prefix_def)
  from w(2) have "set ?z \<subseteq> set w" by (rule set_mono_prefix)
  with cz w(1) assms show False by blast
qed

section \<open>The last index\<close>

lemma last_index_snoc: "last_index (xs @ [y]) x = (if y = x then length xs else last_index xs x)"
  by (simp add: last_index_def)

lemma last_index_props:
  assumes "x \<in> set xs"
  shows "last_index xs x < length xs \<and> xs ! last_index xs x = x \<and>
    (\<forall>j<length xs. xs ! j = x \<longrightarrow> j \<le> last_index xs x)"
  using assms
proof (induction xs rule: rev_induct)
  case Nil then show ?case by simp
next
  case (snoc y xs)
  show ?case
  proof (cases "y = x")
    case True
    then show ?thesis by (auto simp: last_index_snoc nth_append)
  next
    case False
    with snoc.prems have "x \<in> set xs" by simp
    from snoc.IH[OF this] False show ?thesis
      by (auto simp: last_index_snoc nth_append less_Suc_eq)
  qed
qed

lemma last_index_unique:
  assumes "i < length xs" "xs ! i = x" "\<forall>j<length xs. xs ! j = x \<longrightarrow> j \<le> i"
  shows "last_index xs x = i"
proof -
  have "x \<in> set xs" using assms(1,2) by (metis nth_mem)
  from last_index_props[OF this] have "last_index xs x < length xs" "xs ! last_index xs x = x"
    "i \<le> last_index xs x" using assms(1,2) by auto
  moreover from this assms(3) have "last_index xs x \<le> i" by blast
  ultimately show ?thesis by simp
qed

section \<open>The automaton of a pattern set\<close>

lemma binv_ac_inv:
  assumes "binv ws lab a" "\<forall>w\<in>set ws. mapped a w"
  shows "ac_inv ws lab a"
proof -
  from assms(1) have s: "sinv lab a" and f: "fresh a" by (simp_all add: binv_def)
  have len: "length (Tree a) = length lab" using s by (simp add: sinv_def shape_len)
  have "gos lab a" using f len by (simp add: gos_def fresh_def)
  moreover have "links lab a" using f len by (simp add: links_def fresh_def)
  ultimately show ?thesis using assms by (simp add: ac_inv_def qinv_def binv_def)
qed

lemma ac_inv_ext:
  assumes "ac_inv ws lab a" "ext a a'" "qinv lab a'"
  shows "ac_inv ws lab a'"
proof -
  from assms(1) have q: "qinv lab a" and c: "code_inv a" and m: "\<forall>w\<in>set ws. mapped a w"
    and t: "trie_of ws lab a" and l: "leaves ws lab a" by (simp_all add: ac_inv_def)
  have cm: "CodeMap a' = CodeMap a" "CodeSize a' = CodeSize a" using assms(2) by (simp_all add: ext_def)
  have en: "enc a' = enc a" using cm(1) by (simp add: enc_def fun_eq_iff)
  have len: "length (Tree a) = length lab" using q by (rule qinv_len)
  have "code_inv a'" using c cm by (rule code_inv_cong)
  moreover have "\<forall>w\<in>set ws. mapped a' w" using m cm(1) by (auto intro: mapped_cong)
  moreover have "trie_of ws lab a'" using t by (simp add: trie_of_def en)
  moreover have "leaves ws lab a'"
    using l ext_fields(2)[OF assms(2)] len by (simp add: leaves_def en)
  ultimately show ?thesis using assms(3) by (simp add: ac_inv_def)
qed

lemma ac_member:
  assumes "ac_inv ws lab a"
  shows "enc a x \<in> set lab \<longleftrightarrow> trie_prefix ws x"
proof -
  from assms have "enc a x \<in> set lab \<longleftrightarrow> trie_prefix (map (enc a) ws) (enc a x)"
    by (simp add: ac_inv_def trie_of_def)
  also have "\<dots> \<longleftrightarrow> trie_prefix ws x" using assms by (intro trie_prefix_enc) (simp_all add: ac_inv_def)
  finally show ?thesis .
qed

lemma ac_lsp:
  assumes "ac_inv ws lab a"
  shows "lsp (\<lambda>y. y \<in> set lab) (enc a x) = enc a (state_str ws x)"
  unfolding state_str_def enc_def
  by (rule lsp_map) (use ac_member[OF assms] in \<open>simp add: enc_def\<close>)

lemma ac_unmapped:
  assumes "ac_inv ws lab a" "CodeMap a (char_index c) = -1"
  shows "\<forall>w\<in>set ws. c \<notin> set w"
  using assms unfolding ac_inv_def mapped_def by blast

lemma ac_mapped_char:
  assumes "ac_inv ws lab a" "trie_prefix ws (y @ [c])"
  shows "char_index c < CODEMAP_SIZE" "CodeMap a (char_index c) \<noteq> -1"
proof -
  from assms(2) obtain w where w: "w \<in> set ws" "prefix (y @ [c]) w" by (auto simp: trie_prefix_def)
  from w(2) have "set (y @ [c]) \<subseteq> set w" by (rule set_mono_prefix)
  then have "c \<in> set w" by simp
  moreover from assms(1) w(1) have "mapped a w" by (simp add: ac_inv_def)
  ultimately show "char_index c < CODEMAP_SIZE" "CodeMap a (char_index c) \<noteq> -1"
    by (auto simp: mapped_def)
qed

lemma ac_leaf:
  assumes "ac_inv ws lab a" "u < length lab" "lab ! u = enc a z"
  shows "IsLeaf (Tree a ! u) = leaf_of ws z"
proof -
  from assms(1) have c: "code_inv a" and m: "\<forall>w\<in>set ws. mapped a w" and l: "leaves ws lab a"
    by (simp_all add: ac_inv_def)
  have inj: "enc a w = enc a z \<longleftrightarrow> w = z" if "w \<in> set ws" for w
    using enc_inj[OF c, of w z] that m by auto
  from l assms(2) have "(IsLeaf (Tree a ! u) = -1 \<and> lab ! u \<notin> enc a ` set ws) \<or>
      (\<exists>i<length ws. IsLeaf (Tree a ! u) = int i \<and> enc a (ws ! i) = lab ! u \<and>
         (\<forall>j<length ws. enc a (ws ! j) = lab ! u \<longrightarrow> j \<le> i))" by (simp add: leaves_def)
  then show ?thesis
  proof
    assume "IsLeaf (Tree a ! u) = -1 \<and> lab ! u \<notin> enc a ` set ws"
    then show ?thesis using assms(3) by (auto simp: leaf_of_def)
  next
    assume "\<exists>i<length ws. IsLeaf (Tree a ! u) = int i \<and> enc a (ws ! i) = lab ! u \<and>
         (\<forall>j<length ws. enc a (ws ! j) = lab ! u \<longrightarrow> j \<le> i)"
    then obtain i where i: "i < length ws" "IsLeaf (Tree a ! u) = int i" "enc a (ws ! i) = lab ! u"
      "\<forall>j<length ws. enc a (ws ! j) = lab ! u \<longrightarrow> j \<le> i" by blast
    have wi: "ws ! i = z" using inj[of "ws ! i"] i(1,3) assms(3) by simp
    have "\<forall>j<length ws. ws ! j = z \<longrightarrow> j \<le> i" using i(4) assms(3) by simp
    with i(1) wi have "last_index ws z = i" by (intro last_index_unique)
    moreover have "z \<in> set ws" using wi i(1) by (metis nth_mem)
    ultimately show ?thesis using i(2) by (simp add: leaf_of_def)
  qed
qed

lemma ac_depth:
  assumes "ac_inv ws lab a" "u < length lab"
  shows "Depth (Tree a ! u) = length (lab ! u)"
  using assms by (simp add: ac_inv_def qinv_def sinv_def depths_def)

lemma ac_root: "ac_inv ws lab a \<Longrightarrow> 0 < length lab \<and> lab ! 0 = []"
  by (simp add: ac_inv_def qinv_def sinv_def shape_def)

lemma ac_len: "ac_inv ws lab a \<Longrightarrow> length (Tree a) = length lab"
  by (simp add: ac_inv_def qinv_len)

subsection \<open>One symbol\<close>

lemma SwitchState_ok:
  assumes ac: "ac_inv ws lab a" and v: "Idx v < length lab"
    and lv: "lab ! Idx v = enc a (state_str ws x)" and r: "char_index c < CODEMAP_SIZE"
  shows "\<exists>res. SwitchState c v a = Some res \<and> step_ok ws lab a x c res"
proof -
  let ?code = "CodeMap a (char_index c)"
  have cat: "code_at a c = Some ?code" using r by (simp add: code_at_def)
  have step: "state_str ws (x @ [c]) = state_str ws (state_str ws x @ [c])" by (rule state_str_step)
  show ?thesis
  proof (cases "?code = -1")
    case True
    have "state_str ws (x @ [c]) = []" using ac_unmapped[OF ac True] by (rule state_str_unmapped)
    then have "step_ok ws lab a x c (TState_new, a)"
      using ac ac_root[OF ac] True by (simp add: step_ok_def TState_new_def ext_refl)
    moreover have "SwitchState c v a = Some (TState_new, a)"
      using True by (simp add: SwitchState_def cat)
    ultimately show ?thesis by simp
  next
    case False
    from ac have ci: "code_inv a" and q: "qinv lab a" by (simp_all add: ac_inv_def)
    from ci False have c0: "0 \<le> ?code" and cl: "nat ?code < CodeSize a"
      unfolding code_inv_def by (metis, metis nat_less_iff)
    from SwitchStateCode_ok[OF q v cl] obtain t a' where
      s: "SwitchStateCode (nat ?code) v a = Some (t, a')"
      and ok: "switch_ok lab a (nat ?code) (Idx v) (t, a')" by auto
    from ok have q': "qinv lab a'" and e: "ext a a'" and t: "Idx t < length lab"
      and lt: "lab ! Idx t = lsp (\<lambda>x. x \<in> set lab) (lab ! Idx v @ [int (nat ?code)])"
      and dt: "Depth_st t = Depth (Tree a ! Idx t)" and ft: "Leaf t = IsLeaf (Tree a ! Idx t)"
      by (simp_all add: switch_ok_def)
    have "lab ! Idx v @ [int (nat ?code)] = enc a (state_str ws x @ [c])" using lv c0 by simp
    then have lt': "lab ! Idx t = enc a (state_str ws (x @ [c]))"
      using lt ac_lsp[OF ac, of "state_str ws x @ [c]"] step by simp
    have "step_ok ws lab a x c (t, a')"
      using ac_inv_ext[OF ac e q'] e t lt' dt ft ac_depth[OF ac t] ac_leaf[OF ac t lt'] False
      by (simp add: step_ok_def)
    moreover have "SwitchState c v a = Some (t, a')"
      using False c0 s by (simp add: SwitchState_def cat)
    ultimately show ?thesis by simp
  qed
qed

lemma resolve_Link_None: "\<not> Idx s < length (Tree a) \<Longrightarrow> resolve (Link s) a = None"
  by (subst resolve_Link) (simp add: at_def)

lemma resolve_Switch_None: "\<not> Idx s < length (Tree a) \<Longrightarrow> resolve (Switch c s) a = None"
  by (subst resolve_Switch) (simp add: at_def)

lemma SwitchState_pres:
  assumes ac: "ac_inv ws lab a" and s: "SwitchState c v a = Some (t, a')"
  shows "ac_inv ws lab a' \<and> ext a a' \<and> Idx t < length lab"
proof -
  let ?code = "CodeMap a (char_index c)"
  from s have r: "char_index c < CODEMAP_SIZE" and cat: "code_at a c = Some ?code"
    by (auto simp: SwitchState_def code_at_def split: if_splits)
  show ?thesis
  proof (cases "?code = -1")
    case True
    with s cat have "t = TState_new" "a' = a" by (simp_all add: SwitchState_def)
    then show ?thesis using ac ac_root[OF ac] by (simp add: TState_new_def ext_refl)
  next
    case False
    with s cat have c0: "0 \<le> ?code" and sc: "SwitchStateCode (nat ?code) v a = Some (t, a')"
      by (auto simp: SwitchState_def split: if_splits)
    have v: "Idx v < length lab"
      using sc resolve_Switch_None[of v a "nat ?code"] ac_len[OF ac]
      by (cases "Idx v < length (Tree a)") (simp_all add: SwitchStateCode_def)
    from ac have ci: "code_inv a" and q: "qinv lab a" by (simp_all add: ac_inv_def)
    from ci False have cl: "nat ?code < CodeSize a" unfolding code_inv_def by (metis nat_less_iff)
    from SwitchStateCode_ok[OF q v cl] sc have ok: "switch_ok lab a (nat ?code) (Idx v) (t, a')" by auto
    then have "qinv lab a'" "ext a a'" "Idx t < length lab" by (simp_all add: switch_ok_def)
    with ac_inv_ext[OF ac] show ?thesis by blast
  qed
qed

lemma GetLink_pres:
  assumes ac: "ac_inv ws lab a" and s: "GetLink v a = Some (t, a')"
  shows "ac_inv ws lab a' \<and> ext a a' \<and> Idx t < length lab"
proof -
  have v: "Idx v < length lab"
    using s resolve_Link_None[of v a] ac_len[OF ac]
    by (cases "Idx v < length (Tree a)") (simp_all add: GetLink_def)
  from ac have q: "qinv lab a" by (simp add: ac_inv_def)
  from GetLink_ok[OF q v] s have "link_ok lab a (Idx v) (t, a')" by auto
  then have "qinv lab a'" "ext a a'" "Idx t < length lab" by (simp_all add: link_ok_def)
  with ac_inv_ext[OF ac] show ?thesis by blast
qed

subsection \<open>Walks\<close>

lemma trie_prefix_append: "trie_prefix ws (y @ s) \<Longrightarrow> trie_prefix ws y"
  using prefix_closed_prefix[OF trie_prefix_closed, of ws "y @ s" y] by simp

lemma state_str_full: "length (state_str ws x) = length x \<longleftrightarrow> trie_prefix ws x"
  unfolding state_str_def by (rule lsp_full_length) simp

lemma leaf_of_nonneg: "0 \<le> leaf_of ws z \<longleftrightarrow> z \<in> set ws"
  by (simp add: leaf_of_def)

lemma ext_enc: "ext a a' \<Longrightarrow> enc a' = enc a"
  by (simp add: ext_def enc_def fun_eq_iff)

lemma walk_total:
  assumes "ac_inv ws lab a" "Idx v < length lab" "trie_prefix ws y" "lab ! Idx v = enc a y"
    "Depth_st v = length y" "\<forall>c\<in>set s. char_index c < CODEMAP_SIZE"
  shows "\<exists>r a'. walk s v a = Some (r, a') \<and> ac_inv ws lab a' \<and> ext a a' \<and> walk_ok ws y s v r"
  using assms
proof (induction s arbitrary: v y a)
  case Nil
  then show ?case by (auto simp: walk_ok_def ext_refl)
next
  case (Cons c s)
  have yy: "state_str ws y = y" using Cons.prems(3) by (rule state_str_id)
  have r: "char_index c < CODEMAP_SIZE" using Cons.prems(6) by simp
  from SwitchState_ok[OF Cons.prems(1,2) _ r, of y] Cons.prems(4) obtain t a1 where
    s1: "SwitchState c v a = Some (t, a1)" and ok: "step_ok ws lab a y c (t, a1)"
    by (auto simp: yy)
  let ?z = "state_str ws (y @ [c])"
  from ok have ac1: "ac_inv ws lab a1" and e1: "ext a a1" and t: "Idx t < length lab"
    and lt: "lab ! Idx t = enc a ?z" and dt: "Depth_st t = length ?z"
    and ft: "Leaf t = (if CodeMap a (char_index c) = -1 then -1 else leaf_of ws ?z)"
    by (simp_all add: step_ok_def)
  have nx: "IsNextTo t v \<longleftrightarrow> trie_prefix ws (y @ [c])"
    using dt Cons.prems(5) state_str_full[of ws "y @ [c]"] by (simp add: IsNextTo_def)
  show ?case
  proof (cases "trie_prefix ws (y @ [c])")
    case False
    then have "\<not> trie_prefix ws (y @ c # s)" using trie_prefix_append[of ws "y @ [c]" s] by auto
    then have "walk_ok ws y (c # s) v None" by (simp add: walk_ok_def)
    moreover have "walk (c # s) v a = Some (None, a1)" using s1 nx False by simp
    ultimately show ?thesis using ac1 e1 by blast
  next
    case True
    then have z: "?z = y @ [c]" by (rule state_str_id)
    have m: "CodeMap a (char_index c) \<noteq> -1" using ac_mapped_char[OF Cons.prems(1) True] by simp
    have en1: "enc a1 = enc a" using e1 by (rule ext_enc)
    have lt1: "lab ! Idx t = enc a1 (y @ [c])" using lt z en1 by simp
    have dt1: "Depth_st t = length (y @ [c])" using dt z by simp
    have rs: "\<forall>c\<in>set s. char_index c < CODEMAP_SIZE" using Cons.prems(6) by simp
    from Cons.IH[OF ac1 t True lt1 dt1 rs] obtain r a' where
      w: "walk s t a1 = Some (r, a')" and ac': "ac_inv ws lab a'" and e': "ext a1 a'"
      and wo: "walk_ok ws (y @ [c]) s t r" by blast
    have "walk_ok ws y (c # s) v r"
    proof (cases r)
      case None with wo show ?thesis by (simp add: walk_ok_def)
    next
      case (Some t')
      show ?thesis
      proof (cases "s = []")
        case True
        with wo Some have "t' = t" "trie_prefix ws (y @ [c])" by (simp_all add: walk_ok_def)
        then show ?thesis using Some True ft m z by (simp add: walk_ok_def)
      next
        case False
        with wo Some show ?thesis by (simp add: walk_ok_def)
      qed
    qed
    moreover have "walk (c # s) v a = Some (r, a')" using s1 nx True w by simp
    moreover have "ext a a'" using e1 e' by (rule ext_trans)
    ultimately show ?thesis using ac' by blast
  qed
qed

lemma walk_pres:
  assumes "ac_inv ws lab a" "walk s v a = Some (r, a')"
  shows "ac_inv ws lab a' \<and> ext a a'"
  using assms
proof (induction s arbitrary: v a)
  case Nil
  then show ?case by (simp add: ext_refl)
next
  case (Cons c s)
  from Cons.prems(2) obtain t a1 where s1: "SwitchState c v a = Some (t, a1)"
    by (auto split: Option.bind_splits)
  from SwitchState_pres[OF Cons.prems(1) s1] have 1: "ac_inv ws lab a1" "ext a a1" by simp_all
  show ?case
  proof (cases "IsNextTo t v")
    case False
    with Cons.prems(2) s1 have "a' = a1" by simp
    with 1 show ?thesis by simp
  next
    case True
    with Cons.prems(2) s1 have "walk s t a1 = Some (r, a')" by simp
    from Cons.IH[OF 1(1) this] 1(2) show ?thesis by (blast intro: ext_trans)
  qed
qed

lemma walk_range:
  "walk s v a = Some (Some t, a') \<Longrightarrow> \<forall>c\<in>set s. char_index c < CODEMAP_SIZE"
proof (induction s arbitrary: v a)
  case Nil then show ?case by simp
next
  case (Cons c s)
  from Cons.prems obtain t1 a1 where s1: "SwitchState c v a = Some (t1, a1)"
    by (auto split: Option.bind_splits)
  then have r: "char_index c < CODEMAP_SIZE"
    by (auto simp: SwitchState_def code_at_def split: if_splits)
  from Cons.prems s1 have "walk s t1 a1 = Some (Some t, a')" by (simp split: if_splits)
  from Cons.IH[OF this] r show ?case by simp
qed

lemma root_state:
  assumes "ac_inv ws lab a"
  shows "Idx TState_new < length lab" "lab ! Idx TState_new = enc a []" "Depth_st TState_new = length ([]::string)"
    "lab ! Idx TState_new = enc a (state_str ws [])"
  using ac_root[OF assms] by (simp_all add: TState_new_def state_str_def)

lemma HasString_total:
  assumes "ac_inv ws lab a" "\<forall>c\<in>set s. char_index c < CODEMAP_SIZE"
  shows "\<exists>a'. HasString s a = Some (s \<noteq> [] \<and> s \<in> set ws, a') \<and> ac_inv ws lab a' \<and> ext a a'"
proof -
  from walk_total[OF assms(1) root_state(1)[OF assms(1)] _ root_state(2,3)[OF assms(1)] assms(2)]
  obtain r a' where w: "walk s TState_new a = Some (r, a')" and ac': "ac_inv ws lab a'"
    and e: "ext a a'" and wo: "walk_ok ws [] s TState_new r" by auto
  have "(case r of None \<Rightarrow> False | Some state \<Rightarrow> IsLeaf_st state) = (s \<noteq> [] \<and> s \<in> set ws)"
  proof (cases r)
    case None
    with wo have "\<not> trie_prefix ws s" by (simp add: walk_ok_def)
    then have "s \<notin> set ws" using trie_prefix_word by blast
    with None show ?thesis by simp
  next
    case (Some t)
    with wo show ?thesis
      by (auto simp: walk_ok_def IsLeaf_st_def TState_new_def leaf_of_nonneg split: if_splits)
  qed
  then have "HasString s a = Some (s \<noteq> [] \<and> s \<in> set ws, a')" using w by (simp add: HasString_def)
  with ac' e show ?thesis by blast
qed

lemma HasPrefix_total:
  assumes "ac_inv ws lab a" "\<forall>c\<in>set s. char_index c < CODEMAP_SIZE"
  shows "\<exists>a'. HasPrefix s a = Some (trie_prefix ws s, a') \<and> ac_inv ws lab a' \<and> ext a a'"
proof -
  from walk_total[OF assms(1) root_state(1)[OF assms(1)] _ root_state(2,3)[OF assms(1)] assms(2)]
  obtain r a' where w: "walk s TState_new a = Some (r, a')" and ac': "ac_inv ws lab a'"
    and e: "ext a a'" and wo: "walk_ok ws [] s TState_new r" by auto
  have "(case r of None \<Rightarrow> False | Some state \<Rightarrow> True) = trie_prefix ws s"
    using wo by (cases r) (simp_all add: walk_ok_def)
  then have "HasPrefix s a = Some (trie_prefix ws s, a')" using w by (simp add: HasPrefix_def)
  with ac' e show ?thesis by blast
qed

lemma HasPrefix_True_range:
  assumes "HasPrefix s a = Some (True, a')"
  shows "\<forall>c\<in>set s. char_index c < CODEMAP_SIZE"
proof -
  from assms obtain t where "walk s TState_new a = Some (Some t, a')"
    by (auto simp: HasPrefix_def split: Option.bind_splits option.splits)
  then show ?thesis by (rule walk_range)
qed

lemma HasString_True_range:
  assumes "HasString s a = Some (True, a')"
  shows "\<forall>c\<in>set s. char_index c < CODEMAP_SIZE"
proof -
  from assms obtain t where "walk s TState_new a = Some (Some t, a')"
    by (auto simp: HasString_def split: Option.bind_splits option.splits)
  then show ?thesis by (rule walk_range)
qed

subsection \<open>Searching\<close>

lemma hits_cong: "CodeMap b = CodeMap a \<Longrightarrow> hits b ws x s = hits a ws x s"
  by (induction s arbitrary: x) simp_all

lemma search_loop_total:
  assumes "ac_inv ws lab a" "Idx v < length lab" "lab ! Idx v = enc a (state_str ws x)"
    "\<forall>c\<in>set s. char_index c < CODEMAP_SIZE"
  shows "\<exists>a'. search_loop s (length x) v res a = Some (res @ hits a ws x s, a') \<and>
    ac_inv ws lab a' \<and> ext a a'"
  using assms
proof (induction s arbitrary: x v a res)
  case Nil
  then show ?case by (simp add: ext_refl)
next
  case (Cons c s)
  have r: "char_index c < CODEMAP_SIZE" using Cons.prems(4) by simp
  from SwitchState_ok[OF Cons.prems(1,2,3) r] obtain t a1 where
    s1: "SwitchState c v a = Some (t, a1)" and ok: "step_ok ws lab a x c (t, a1)" by auto
  let ?z = "state_str ws (x @ [c])"
  from ok have ac1: "ac_inv ws lab a1" and e1: "ext a a1" and t: "Idx t < length lab"
    and lt: "lab ! Idx t = enc a ?z"
    and ft: "Leaf t = (if CodeMap a (char_index c) = -1 then -1 else leaf_of ws ?z)"
    by (simp_all add: step_ok_def)
  have en1: "enc a1 = enc a" using e1 by (rule ext_enc)
  have cm1: "CodeMap a1 = CodeMap a" using e1 by (simp add: ext_def)
  have lt1: "lab ! Idx t = enc a1 (state_str ws (x @ [c]))" using lt en1 by simp
  have rs: "\<forall>c\<in>set s. char_index c < CODEMAP_SIZE" using Cons.prems(4) by simp
  have lf: "IsLeaf_st t \<longleftrightarrow> CodeMap a (char_index c) \<noteq> -1 \<and> ?z \<in> set ws"
    using ft by (simp add: IsLeaf_st_def leaf_of_nonneg)
  have len: "Suc (length x) = length (x @ [c])" by simp
  show ?case
  proof (cases "IsLeaf_st t")
    case True
    with lf ft have gw: "GetWordIdx t = Some (last_index ws ?z)"
      by (simp add: GetWordIdx_def leaf_of_def)
    from Cons.IH[OF ac1 t lt1 rs, of "res @ [(length x + 1, last_index ws ?z)]"] obtain a' where
      sl: "search_loop s (length (x @ [c])) t (res @ [(length x + 1, last_index ws ?z)]) a1 =
        Some ((res @ [(length x + 1, last_index ws ?z)]) @ hits a1 ws (x @ [c]) s, a')"
      and ac': "ac_inv ws lab a'" and e': "ext a1 a'" by blast
    have h: "hits a ws x (c # s) =
        (length x + 1, last_index ws ?z) # hits a ws (x @ [c]) s" using True lf by simp
    have "search_loop (c # s) (length x) v res a = Some (res @ hits a ws x (c # s), a')"
      using s1 True gw sl unfolding h by (simp add: hits_cong[OF cm1])
    moreover have "ext a a'" using e1 e' by (rule ext_trans)
    ultimately show ?thesis using ac' by blast
  next
    case False
    from Cons.IH[OF ac1 t lt1 rs, of res] obtain a' where
      sl: "search_loop s (length (x @ [c])) t res a1 = Some (res @ hits a1 ws (x @ [c]) s, a')"
      and ac': "ac_inv ws lab a'" and e': "ext a1 a'" by blast
    have h: "hits a ws x (c # s) = hits a ws (x @ [c]) s" using False lf by simp
    have "search_loop (c # s) (length x) v res a = Some (res @ hits a ws x (c # s), a')"
      using s1 False sl unfolding h by (simp add: hits_cong[OF cm1])
    moreover have "ext a a'" using e1 e' by (rule ext_trans)
    ultimately show ?thesis using ac' by blast
  qed
qed

lemma search_loop_pres:
  assumes "ac_inv ws lab a" "search_loop s i v res a = Some (r, a')"
  shows "ac_inv ws lab a' \<and> ext a a'"
  using assms
proof (induction s arbitrary: i v res a)
  case Nil
  then show ?case by (simp add: ext_refl)
next
  case (Cons c s)
  from Cons.prems(2) obtain t a1 where s1: "SwitchState c v a = Some (t, a1)"
    by (auto split: Option.bind_splits)
  from SwitchState_pres[OF Cons.prems(1) s1] have 1: "ac_inv ws lab a1" "ext a a1" by simp_all
  from Cons.prems(2) s1 obtain res' where "search_loop s (i + 1) t res' a1 = Some (r, a')"
    by (auto split: if_splits Option.bind_splits)
  from Cons.IH[OF 1(1) this] 1(2) show ?case by (blast intro: ext_trans)
qed

lemma SearchIn_total:
  assumes "ac_inv ws lab a" "\<forall>c\<in>set s. char_index c < CODEMAP_SIZE" "length s < UINT_LIMIT"
  shows "\<exists>a'. SearchIn s res a = Some (res @ hits a ws [] s, a') \<and> ac_inv ws lab a' \<and> ext a a'"
  using search_loop_total[OF assms(1) root_state(1,4)[OF assms(1)] assms(2), of res] assms(3)
  by (simp add: SearchIn_def)

section \<open>Automata in use\<close>

lemma built_ac: "built ws a \<Longrightarrow> \<exists>lab. ac_inv ws lab a"
proof (induction rule: built.induct)
  case (built_Reset a)
  from Reset_binv[OF this] show ?case using binv_ac_inv by blast
next
  case (built_SwitchState a c v t a')
  then show ?case using SwitchState_pres by blast
next
  case (built_GetState a c t a')
  then show ?case unfolding GetState_def using SwitchState_pres by blast
next
  case (built_GetLink a v t a')
  then show ?case using GetLink_pres by blast
next
  case (built_HasString a s b a')
  then obtain lab r where "ac_inv ws lab a" "walk s TState_new a = Some (r, a')"
    by (auto simp: HasString_def split: Option.bind_splits)
  then show ?case using walk_pres by blast
next
  case (built_HasPrefix a s b a')
  then obtain lab r where "ac_inv ws lab a" "walk s TState_new a = Some (r, a')"
    by (auto simp: HasPrefix_def split: Option.bind_splits)
  then show ?case using walk_pres by blast
next
  case (built_SearchIn a s res res' a')
  then obtain lab where "ac_inv ws lab a" "search_loop s 0 TState_new res a = Some (res', a')"
    by (auto simp: SearchIn_def split: if_splits)
  then show ?case using search_loop_pres by blast
qed

section \<open>Node strings\<close>

lemma path_of_lab:
  assumes "sinv lab a" "v < length lab" "length (lab ! v) \<le> n"
  shows "path_of (Tree a) n v = lab ! v"
  using assms(2,3)
proof (induction n arbitrary: v)
  case 0
  then show ?case by simp
next
  case (Suc n)
  from assms(1) have sh: "shape lab a" and pa: "parents lab a" by (simp_all add: sinv_def)
  show ?case
  proof (cases "v = 0")
    case True
    then show ?thesis using sh by (simp add: shape_0)
  next
    case False
    with pa Suc.prems(1) have p: "0 \<le> Parent (Tree a ! v)" "nat (Parent (Tree a ! v)) < length lab"
      "lab ! v = lab ! nat (Parent (Tree a ! v)) @ [int (ParentCode (Tree a ! v))]"
      by (simp_all add: parents_def)
    from p(3) Suc.prems(2) have "length (lab ! nat (Parent (Tree a ! v))) \<le> n"
      by (metis Suc_le_mono length_append_singleton)
    from Suc.IH[OF p(2) this] p False Suc.prems(1) shape_len[OF sh] show ?thesis by simp
  qed
qed

lemma node_str_lab:
  assumes "ac_inv ws lab a" "v < length lab"
  shows "node_str a v = lab ! v"
proof -
  from assms(1) have s: "sinv lab a" by (simp add: ac_inv_def qinv_def)
  have "Depth (Tree a ! v) = length (lab ! v)" using assms by (rule ac_depth)
  then show ?thesis using path_of_lab[OF s assms(2), of "length (lab ! v)"] by (simp add: node_str_def)
qed

section \<open>The frame of \<open>SearchIn\<close>\<close>

lemma search_loop_frame:
  "search_loop s i v res a = map_option (\<lambda>(ms, a'). (res @ ms, a')) (search_loop s i v [] a)"
proof (induction s arbitrary: i v res a)
  case Nil
  then show ?case by simp
next
  case (Cons c s)
  show ?case
  proof (cases "SwitchState c v a")
    case None
    then show ?thesis by simp
  next
    case (Some r)
    obtain t a1 where r: "r = (t, a1)" by (cases r)
    show ?thesis
    proof (cases "IsLeaf_st t")
      case False
      then show ?thesis using Some r Cons.IH[of "i + 1" t res a1] by simp
    next
      case True
      then obtain idx where g: "GetWordIdx t = Some idx" by (simp add: GetWordIdx_def)
      have 1: "search_loop s (i + 1) t (res @ [(i + 1, idx)]) a1 =
          map_option (\<lambda>(ms, a'). ((res @ [(i + 1, idx)]) @ ms, a')) (search_loop s (i + 1) t [] a1)"
        by (rule Cons.IH)
      have 2: "search_loop s (i + 1) t [(i + 1, idx)] a1 =
          map_option (\<lambda>(ms, a'). ([(i + 1, idx)] @ ms, a')) (search_loop s (i + 1) t [] a1)"
        by (rule Cons.IH)
      show ?thesis using Some r True g 1 2
        by (cases "search_loop s (i + 1) t [] a1") auto
    qed
  qed
qed

section \<open>What \<open>SearchIn\<close> reports, position by position\<close>

lemma upt_Suc_shift: "[0..<Suc n] = 0 # map Suc [0..<n]"
proof -
  have "[0..<Suc n] = 0 # [Suc 0..<Suc n]" by (rule upt_conv_Cons) simp
  also have "[Suc 0..<Suc n] = map Suc [0..<n]" by (simp only: map_Suc_upt)
  finally show ?thesis .
qed

lemma hits_closed:
  "hits a ws x s =
     concat (map (\<lambda>k. if CodeMap a (char_index (s ! k)) \<noteq> -1 \<and> state_str ws (x @ take (Suc k) s) \<in> set ws
                       then [(length x + Suc k, last_index ws (state_str ws (x @ take (Suc k) s)))]
                       else [])
       [0..<length s])"
proof (induction s arbitrary: x)
  case Nil
  then show ?case by simp
next
  case (Cons c s)
  define F where "F = (\<lambda>k. if CodeMap a (char_index ((c # s) ! k)) \<noteq> -1 \<and>
        state_str ws (x @ take (Suc k) (c # s)) \<in> set ws
      then [(length x + Suc k, last_index ws (state_str ws (x @ take (Suc k) (c # s))))]
      else [])"
  have "hits a ws (x @ [c]) s = concat (map (\<lambda>k. F (Suc k)) [0..<length s])"
    unfolding Cons.IH F_def by (simp cong: if_cong)
  moreover have "hits a ws x (c # s) = F 0 @ hits a ws (x @ [c]) s"
    by (simp add: F_def)
  ultimately have "hits a ws x (c # s) = concat (map F (0 # map Suc [0..<length s]))"
    by (simp add: o_def)
  then show ?case unfolding F_def length_Cons upt_Suc_shift .
qed

lemma state_str_last:
  assumes "state_str ws (x @ [c]) \<noteq> []"
  shows "\<exists>w\<in>set ws. c \<in> set w"
  using state_str_unmapped[of ws c x] assms by blast

lemma hits_no_empty:
  assumes "ac_inv ws lab a" "[] \<notin> set ws"
  shows "hits a ws x s =
     concat (map (\<lambda>k. if state_str ws (x @ take (Suc k) s) \<in> set ws
                       then [(length x + Suc k, last_index ws (state_str ws (x @ take (Suc k) s)))]
                       else [])
       [0..<length s])"
proof -
  have "CodeMap a (char_index (s ! k)) \<noteq> -1"
    if k: "k < length s" and z: "state_str ws (x @ take (Suc k) s) \<in> set ws" for k
  proof -
    have t: "take (Suc k) s = take k s @ [s ! k]" using k by (rule take_Suc_conv_app_nth)
    from z assms(2) have "state_str ws ((x @ take k s) @ [s ! k]) \<noteq> []" by (auto simp: t)
    from state_str_last[OF this] obtain w where "w \<in> set ws" "s ! k \<in> set w" by blast
    with assms(1) show ?thesis by (auto simp: ac_inv_def mapped_def)
  qed
  then show ?thesis unfolding hits_closed by (intro arg_cong[of _ _ concat] map_cong) auto
qed

section \<open>Running the code on concrete inputs\<close>

lemma bind_weak_cong: "x = y \<Longrightarrow> Option.bind x f = Option.bind y f"
  by simp

lemmas run_simps = Reset_def UINT_LIMIT_def insert_word_def code_at_def char_index_def
  char_value_def size_t_of_def CODEMAP_SIZE_def at_def at_off_def TNode_new_def SearchIn_def
  SwitchState_def SwitchStateCode_def resolve.simps TState_new_def TState_of_def IsLeaf_st_def
  IsRoot_def IsNextTo_def GetWordIdx_def GetLink_def GetState_def HasString_def HasPrefix_def

lemma Reset_example: "\<exists>a. Reset [''abcd'', ''bcde'', ''cdef''] = Some a"
  by (simp add: run_simps cong: bind_weak_cong)

lemma example_range: "\<forall>c\<in>set ''abcdef''. char_index c < CODEMAP_SIZE"
  by (simp add: char_index_def char_value_def size_t_of_def CODEMAP_SIZE_def)

section \<open>The claims\<close>

text \<open>
  What the loop of \<open>SearchIn\<close> computes. A pair is emitted only when the state reached after
  a symbol is itself a leaf. On an automaton built from patterns without the empty string, for
  a text shorter than \<open>2^32\<close> whose symbols index inside the code map, the result lists, in
  increasing order of the end position \<open>j\<close>, one pair for each \<open>j\<close> at which the longest suffix
  of the first \<open>j\<close> symbols that is a prefix of some pattern is itself a pattern.
\<close>

lemma SearchIn_leaf_states:
  assumes "built ws a" "[] \<notin> set ws" "\<forall>c\<in>set s. char_index c < CODEMAP_SIZE"
    "length s < UINT_LIMIT"
  shows "\<exists>a'. SearchIn s [] a =
    Some ([(Suc k, last_index ws (state_str ws (take (Suc k) s))).
             k \<leftarrow> [0..<length s], state_str ws (take (Suc k) s) \<in> set ws], a')"
proof -
  from built_ac[OF assms(1)] obtain lab where ac: "ac_inv ws lab a" by blast
  from SearchIn_total[OF ac assms(3,4), of "[]"] obtain a' where
    "SearchIn s [] a = Some (hits a ws [] s, a')" by auto
  then show ?thesis using hits_no_empty[OF ac assms(2), of "[]" s] by (simp cong: if_cong)
qed

lemma SearchIn_leaf_states_example:
  "\<exists>a a'. Reset [''abcd'', ''bcde'', ''cdef''] = Some a \<and>
     SearchIn ''abcdef'' [] a = Some ([(4, 0), (5, 1), (6, 2)], a')"
proof -
  let ?ws = "[''abcd'', ''bcde'', ''cdef'']"
  from Reset_example obtain a where a: "Reset ?ws = Some a" by blast
  then have b: "built ?ws a" by (rule built_Reset)
  have e: "[] \<notin> set ?ws" by simp
  have l: "length ''abcdef'' < UINT_LIMIT" by (simp add: UINT_LIMIT_def)
  from SearchIn_leaf_states[OF b e example_range l] obtain a' where
    "SearchIn ''abcdef'' [] a =
      Some ([(Suc k, last_index ?ws (state_str ?ws (take (Suc k) ''abcdef''))).
             k \<leftarrow> [0..<length ''abcdef''], state_str ?ws (take (Suc k) ''abcdef'') \<in> set ?ws], a')"
    by blast
  moreover have "[(Suc k, last_index ?ws (state_str ?ws (take (Suc k) ''abcdef''))).
             k \<leftarrow> [0..<length ''abcdef''], state_str ?ws (take (Suc k) ''abcdef'') \<in> set ?ws]
      = [(4, 0), (5, 1), (6, 2)]"
    by (simp add: upt_rec state_str_def trie_prefix_def last_index_def)
  ultimately show ?thesis using a by simp
qed

text \<open>
  Claim C1. \<open>SearchIn\<close> is to report every occurrence of every pattern. It emits a pair only
  for the leaf mark of the state it stands in and never follows the suffix links to the
  shorter patterns that end at the same position: with the patterns \<open>abcd\<close> and \<open>bc\<close>, the
  text \<open>abcd\<close> holds \<open>bc\<close> at positions 2 to 3, yet the only pair reported is that of \<open>abcd\<close>.
\<close>

theorem SearchIn_misses_inner_pattern:
  "map_option fst (Reset [''abcd'', ''bc''] \<bind> SearchIn ''abcd'' []) = Some [(4, 0)] \<and>
   take 2 (drop 1 ''abcd'') = [''abcd'', ''bc''] ! 1"
  by (simp add: run_simps cong: bind_weak_cong)

text \<open>
  The pairs of \<open>SearchIn\<close>. Every pair \<open>(j, i)\<close> in the result is sound: \<open>j\<close> is a 1-based
  position of the text, \<open>i\<close> indexes a pattern no longer than \<open>j\<close>, and the symbols of the text
  that end at \<open>j\<close> spell that pattern. A pair stands at \<open>j\<close> whenever the longest suffix of the
  first \<open>j\<close> symbols that is a prefix of some pattern is a non-empty pattern.
\<close>

lemma SearchIn_pairs:
  assumes "built ws a" "\<forall>c\<in>set s. char_index c < CODEMAP_SIZE" "length s < UINT_LIMIT"
  shows "\<exists>ms a'. SearchIn s [] a = Some (ms, a') \<and>
    (\<forall>(j, i)\<in>set ms. 1 \<le> j \<and> j \<le> length s \<and> i < length ws \<and> length (ws ! i) \<le> j \<and>
        take (length (ws ! i)) (drop (j - length (ws ! i)) s) = ws ! i) \<and>
    (\<forall>j w. 1 \<le> j \<and> j \<le> length s \<and> w \<in> set ws \<and> w \<noteq> [] \<and> state_str ws (take j s) = w \<longrightarrow>
        (j, last_index ws w) \<in> set ms)"
proof -
  from built_ac[OF assms(1)] obtain lab where ac: "ac_inv ws lab a" by blast
  from SearchIn_total[OF ac assms(2,3), of "[]"] obtain a' where
    r: "SearchIn s [] a = Some (hits a ws [] s, a')" by auto
  let ?z = "\<lambda>k. state_str ws (take (Suc k) s)"
  have mem: "(j, i) \<in> set (hits a ws [] s) \<longleftrightarrow>
      (\<exists>k<length s. CodeMap a (char_index (s ! k)) \<noteq> -1 \<and> ?z k \<in> set ws \<and>
         j = Suc k \<and> i = last_index ws (?z k))" for j i
    unfolding hits_closed by (auto split: if_splits)
  have sound: "1 \<le> j \<and> j \<le> length s \<and> i < length ws \<and> length (ws ! i) \<le> j \<and>
        take (length (ws ! i)) (drop (j - length (ws ! i)) s) = ws ! i"
    if "(j, i) \<in> set (hits a ws [] s)" for j i
  proof -
    from that mem obtain k where k: "k < length s" "?z k \<in> set ws" "j = Suc k"
      "i = last_index ws (?z k)" by blast
    from last_index_props[OF k(2)] k(4) have i: "i < length ws" "ws ! i = ?z k" by simp_all
    have "suffix (?z k) (take j s)" using k(3) by (simp add: state_str_suffix)
    then obtain r where r: "take j s = r @ ?z k" by (auto simp: suffix_def)
    have lj: "length (take j s) = j" using k(1,3) by simp
    with r have len: "length r + length (?z k) = j" by (metis length_append)
    then have "drop (j - length (?z k)) (take j s) = ?z k" using r by simp
    moreover have "drop (j - length (?z k)) (take j s) = take (length (?z k)) (drop (j - length (?z k)) s)"
      using len by (simp add: drop_take)
    ultimately show ?thesis using i k(1,3) len by simp
  qed
  have complete: "(j, last_index ws w) \<in> set (hits a ws [] s)"
    if "1 \<le> j" "j \<le> length s" "w \<in> set ws" "w \<noteq> []" "state_str ws (take j s) = w" for j w
  proof -
    from that(1) obtain k where k: "j = Suc k" by (cases j) auto
    with that(2) have kl: "k < length s" by simp
    have t: "take (Suc k) s = take k s @ [s ! k]" using kl by (rule take_Suc_conv_app_nth)
    from that(4,5) k have "state_str ws (take k s @ [s ! k]) \<noteq> []" by (simp add: t)
    from state_str_last[OF this] obtain w' where "w' \<in> set ws" "s ! k \<in> set w'" by blast
    with ac have "CodeMap a (char_index (s ! k)) \<noteq> -1" by (auto simp: ac_inv_def mapped_def)
    with that(3,5) k kl show ?thesis unfolding mem by auto
  qed
  show ?thesis using r sound complete by blast
qed

lemma SearchIn_pairs_example:
  "\<exists>a ms a'. Reset [''abcd'', ''bcde'', ''cdef''] = Some a \<and>
     SearchIn ''abcdef'' [] a = Some (ms, a') \<and> (5, 1) \<in> set ms \<and>
     (\<forall>(j, i)\<in>set ms. take (length ([''abcd'', ''bcde'', ''cdef''] ! i))
        (drop (j - length ([''abcd'', ''bcde'', ''cdef''] ! i)) ''abcdef'') = [''abcd'', ''bcde'', ''cdef''] ! i)"
proof -
  let ?ws = "[''abcd'', ''bcde'', ''cdef'']"
  from Reset_example obtain a where a: "Reset ?ws = Some a" by blast
  then have b: "built ?ws a" by (rule built_Reset)
  have l: "length ''abcdef'' < UINT_LIMIT" by (simp add: UINT_LIMIT_def)
  from SearchIn_pairs[OF b example_range l] obtain ms a' where
    r: "SearchIn ''abcdef'' [] a = Some (ms, a')"
    and s: "\<forall>(j, i)\<in>set ms. 1 \<le> j \<and> j \<le> length ''abcdef'' \<and> i < length ?ws \<and> length (?ws ! i) \<le> j \<and>
        take (length (?ws ! i)) (drop (j - length (?ws ! i)) ''abcdef'') = ?ws ! i"
    and c: "\<forall>j w. 1 \<le> j \<and> j \<le> length ''abcdef'' \<and> w \<in> set ?ws \<and> w \<noteq> [] \<and>
        state_str ?ws (take j ''abcdef'') = w \<longrightarrow> (j, last_index ?ws w) \<in> set ms"
    by blast
  have z: "state_str ?ws (take 5 ''abcdef'') = ''bcde''"
    by (simp add: state_str_def trie_prefix_def)
  have "1 \<le> (5::nat) \<and> 5 \<le> length ''abcdef'' \<and> ''bcde'' \<in> set ?ws \<and> ''bcde'' \<noteq> [] \<and>
      state_str ?ws (take 5 ''abcdef'') = ''bcde''" using z by simp
  with c have "(5, last_index ?ws ''bcde'') \<in> set ms" by blast
  then have "(5, 1) \<in> set ms" by (simp add: last_index_def)
  with a r s show ?thesis by blast
qed

text \<open>
  Claim C2. \<open>SearchIn\<close> is to report at least one match on a text that holds a pattern. With
  the patterns \<open>abc\<close> and \<open>b\<close>, the text \<open>ab\<close> holds the pattern \<open>b\<close>; the states visited are
  those of \<open>a\<close> and \<open>ab\<close>, neither a leaf, the suffix link to \<open>b\<close> is never followed, and
  nothing is reported.
\<close>

theorem SearchIn_reports_nothing:
  "map_option fst (Reset [''abc'', ''b''] \<bind> SearchIn ''ab'' []) = Some [] \<and>
   drop 1 ''ab'' = [''abc'', ''b''] ! 1"
  by (simp add: run_simps cong: bind_weak_cong)

text \<open>
  Claim C3. \<open>Reset\<close> marks the root as the leaf of an empty pattern, but \<open>HasString\<close> starts from
  the default state, whose leaf mark is \<open>-1\<close>, and so answers false for the empty string even
  when it is a pattern of the set.
\<close>

theorem HasString_empty_pattern:
  "map_option fst (Reset [''''] \<bind> HasString '''') = Some False \<and> '''' \<in> set ['''']"
  by (simp add: run_simps cong: bind_weak_cong)

text \<open>
  Claim C6. \<open>SwitchState\<close> indexes the code map with a signed \<open>char\<close>; for the byte \<open>0xE9\<close> the
  index lies outside the map and no successor state is defined.
\<close>

theorem SwitchState_high_byte:
  "(\<exists>a. Reset [''a''] = Some a) \<and> (Reset [''a''] \<bind> SwitchState (CHR 0xE9) TState_new) = None"
  by (simp add: run_simps cong: bind_weak_cong)

text \<open>
  Claim C8. The byte \<open>0x80\<close>, read as a signed \<open>char\<close> and converted to \<open>size_t\<close>, indexes the
  code map at \<open>2^64 - 128\<close>, outside its 256 entries; \<open>Reset\<close> on a pattern holding that byte
  reaches the access out of bounds.
\<close>

theorem CodeMap_index_out_of_bounds:
  "char_index (CHR 0x80) = 18446744073709551488 \<and> CODEMAP_SIZE = 256 \<and> Reset [[CHR 0x80]] = None"
  by (simp add: run_simps cong: bind_weak_cong)

text \<open>
  Claim C9. For the patterns \<open>[a]\<close>, the state of node 1 has depth 1 and its suffix link is the
  root, of depth 0; the state returned by \<open>GetLink\<close> references the root but carries depth 1,
  the depth of the node it was asked about.
\<close>

theorem GetLink_exposes_own_depth:
  "(Reset [''a''] \<bind> (\<lambda>a. GetState (CHR ''a'') a \<bind> (\<lambda>(s, a1).
      map_option (\<lambda>(t, a2). (Idx s, Depth_st s, Idx t, Depth_st t, Depth (Tree a2 ! Idx t))) (GetLink s a1))))
   = Some (1, 1, 0, 1, 0)"
  by (simp add: run_simps cong: bind_weak_cong)

lemma Reset_example_size:
  "\<exists>a. Reset [''abcd'', ''bcde'', ''cdef''] = Some a \<and> length (Tree a) = 13 \<and> CodeSize a = 6"
  by (simp add: run_simps cong: bind_weak_cong)

lemma lsp_proper:
  assumes "x \<noteq> []"
  shows "strict_suffix (lsp P (tl x)) x"
    and "strict_suffix y x \<Longrightarrow> P y \<Longrightarrow> length y \<le> length (lsp P (tl x))"
proof -
  from assms obtain c xs where x: "x = c # xs" by (cases x) auto
  have "suffix (lsp P xs) xs" by (rule lsp_suffix)
  then show "strict_suffix (lsp P (tl x)) x"
    unfolding x by (metis list.sel(3) suffix_ConsI suffix_order.less_le suffix_length_le
        length_Cons not_less_eq_eq order_refl)
  assume "strict_suffix y x" "P y"
  then have "suffix y xs" unfolding x by (auto simp: suffix_Cons strict_suffix_def)
  then have "suffix y (lsp P xs)" using \<open>P y\<close> by (rule lsp_longest)
  then show "length y \<le> length (lsp P (tl x))"
    unfolding x by (simp add: suffix_length_le)
qed

lemma lsp_parent:
  assumes "prefix_closed P" "y \<noteq> []"
  shows "lsp P (tl (y @ [c])) = lsp P (lsp P (tl y) @ [c])"
proof -
  have "tl (y @ [c]) = tl y @ [c]" using assms(2) by simp
  then show ?thesis using lsp_step[OF assms(1), of "tl y" c] by simp
qed

text \<open>
  Claim C4. On a built automaton, \<open>GetLink\<close> returns for every node a state that references
  the node's failure link: the root for the root and for the children of the root, otherwise
  the node reached from the link of the parent by the node's own parent code; and for every
  node but the root, the string of that node is the longest proper suffix of the node's
  string that is the string of a trie node.
\<close>

theorem GetLink_failure_link:
  assumes "built ws a" "Idx s < length (Tree a)"
  shows "\<exists>t a'. GetLink s a = Some (t, a') \<and> Idx t < length (Tree a) \<and>
    (Idx s = 0 \<or> Parent (Tree a ! Idx s) = 0 \<longrightarrow> Idx t = 0) \<and>
    (Idx s \<noteq> 0 \<and> Parent (Tree a ! Idx s) \<noteq> 0 \<longrightarrow>
       (\<exists>p a1 q a2. GetLink (TState_of (nat (Parent (Tree a ! Idx s))) 0 (-1)) a = Some (p, a1) \<and>
          SwitchStateCode (ParentCode (Tree a ! Idx s)) p a1 = Some (q, a2) \<and> Idx t = Idx q)) \<and>
    (Idx s \<noteq> 0 \<longrightarrow>
       strict_suffix (node_str a (Idx t)) (node_str a (Idx s)) \<and>
       (\<forall>u<length (Tree a). strict_suffix (node_str a u) (node_str a (Idx s)) \<longrightarrow>
          length (node_str a u) \<le> length (node_str a (Idx t))))"
proof -
  from built_ac[OF assms(1)] obtain lab where ac: "ac_inv ws lab a" by blast
  let ?v = "Idx s" and ?P = "\<lambda>x. x \<in> set lab"
  have len: "length (Tree a) = length lab" using ac by (rule ac_len)
  have v: "?v < length lab" using assms(2) len by simp
  from ac have q: "qinv lab a" by (simp add: ac_inv_def)
  then have si: "sinv lab a" by (simp add: qinv_def)
  then have sh: "shape lab a" and pa: "parents lab a" by (simp_all add: sinv_def)
  have pc: "prefix_closed ?P" using si by (rule sinv_prefix_closed)
  from GetLink_ok[OF q v] obtain t a' where g: "GetLink s a = Some (t, a')"
    and ok: "link_ok lab a ?v (t, a')" by auto
  from ok have t: "Idx t < length lab" and lt: "lab ! Idx t = lsp ?P (tl (lab ! ?v))"
    by (simp_all add: link_ok_def)
  have ns: "node_str a u = lab ! u" if "u < length lab" for u using ac that by (rule node_str_lab)
  have base: "Idx t = 0" if "?v = 0 \<or> Parent (Tree a ! ?v) = 0"
  proof -
    have "tl (lab ! ?v) = []"
    proof (cases "?v = 0")
      case True then show ?thesis using sh by (simp add: shape_0)
    next
      case False
      with that pa v have "lab ! ?v = lab ! 0 @ [int (ParentCode (Tree a ! ?v))]"
        by (simp add: parents_def)
      then show ?thesis using sh by (simp add: shape_0)
    qed
    with lt have "lab ! Idx t = []" by simp
    with shape_root[OF sh t] show ?thesis by simp
  qed
  have rec: "\<exists>p a1 q a2. GetLink (TState_of (nat (Parent (Tree a ! ?v))) 0 (-1)) a = Some (p, a1) \<and>
          SwitchStateCode (ParentCode (Tree a ! ?v)) p a1 = Some (q, a2) \<and> Idx t = Idx q"
    if "?v \<noteq> 0" "Parent (Tree a ! ?v) \<noteq> 0"
  proof -
    let ?p = "nat (Parent (Tree a ! ?v))" and ?c = "ParentCode (Tree a ! ?v)"
    from pa v that(1) have p: "0 \<le> Parent (Tree a ! ?v)" "?p < length lab" "?c < CodeSize a"
      and lv: "lab ! ?v = lab ! ?p @ [int ?c]" by (simp_all add: parents_def)
    have pne: "lab ! ?p \<noteq> []" using shape_root[OF sh p(2)] p(1) that(2) by simp
    have ip: "Idx (TState_of ?p 0 (-1)) = ?p" by (simp add: TState_of_def)
    from GetLink_ok[OF q, of "TState_of ?p 0 (-1)"] p(2) obtain pl a1 where
      g1: "GetLink (TState_of ?p 0 (-1)) a = Some (pl, a1)" and ok1: "link_ok lab a ?p (pl, a1)"
      by (auto simp: ip)
    from ok1 have q1: "qinv lab a1" and e1: "ext a a1" and pl: "Idx pl < length lab"
      and lpl: "lab ! Idx pl = lsp ?P (tl (lab ! ?p))" by (simp_all add: link_ok_def)
    have c1: "?c < CodeSize a1" using p(3) e1 by (simp add: ext_def)
    from SwitchStateCode_ok[OF q1 pl c1] obtain qq a2 where
      g2: "SwitchStateCode ?c pl a1 = Some (qq, a2)" and ok2: "switch_ok lab a1 ?c (Idx pl) (qq, a2)"
      by auto
    from ok2 have qi: "Idx qq < length lab" and lq: "lab ! Idx qq = lsp ?P (lab ! Idx pl @ [int ?c])"
      by (simp_all add: switch_ok_def)
    have "lab ! Idx qq = lab ! Idx t" using lq lpl lt lv lsp_parent[OF pc pne, of "int ?c"] by simp
    from shape_inj[OF sh qi t this] g1 g2 show ?thesis by auto
  qed
  have longest: "strict_suffix (node_str a (Idx t)) (node_str a ?v) \<and>
       (\<forall>u<length (Tree a). strict_suffix (node_str a u) (node_str a ?v) \<longrightarrow>
          length (node_str a u) \<le> length (node_str a (Idx t)))" if "?v \<noteq> 0"
  proof -
    have vne: "lab ! ?v \<noteq> []" using shape_root[OF sh v] that by simp
    have "length (lab ! u) \<le> length (lab ! Idx t)"
      if "u < length lab" "strict_suffix (lab ! u) (lab ! ?v)" for u
      using lsp_proper(2)[OF vne that(2), of ?P] that(1) lt by simp
    then show ?thesis using lsp_proper(1)[OF vne, of ?P] lt ns v t len by simp
  qed
  show ?thesis using g t len base rec longest by auto
qed

theorem GetLink_failure_link_witness:
  "\<exists>a t a'. Reset [''abcd'', ''bcde'', ''cdef''] = Some a \<and>
     GetLink (TState_of 4 0 (-1)) a = Some (t, a') \<and>
     strict_suffix (node_str a (Idx t)) (node_str a 4)"
proof -
  let ?ws = "[''abcd'', ''bcde'', ''cdef'']"
  from Reset_example_size obtain a where a: "Reset ?ws = Some a" "length (Tree a) = 13" by blast
  from a(1) have b: "built ?ws a" by (rule built_Reset)
  have i: "Idx (TState_of 4 0 (-1)) < length (Tree a)" using a(2) by (simp add: TState_of_def)
  from GetLink_failure_link[OF b i] a(1) show ?thesis by (auto simp: TState_of_def)
qed

text \<open>
  Claim C5. On a built automaton the two lazy resolvers return, for every node and every
  valid code: \<open>GetLink\<close> yields a node strictly nearer to the root (for every node but the
  root), and \<open>SwitchStateCode\<close> yields a node at most one level deeper than its argument, so
  every chain of recursive calls descends towards the root and ends there.
\<close>

theorem resolvers_terminate:
  assumes "built ws a" "Idx v < length (Tree a)"
  shows "(\<exists>t a'. GetLink v a = Some (t, a') \<and> Idx t < length (Tree a) \<and>
            (Idx v \<noteq> 0 \<longrightarrow> Depth (Tree a ! Idx t) < Depth (Tree a ! Idx v))) \<and>
         (\<forall>code<CodeSize a. \<exists>t a'. SwitchStateCode code v a = Some (t, a') \<and>
            Idx t < length (Tree a) \<and> Depth (Tree a ! Idx t) \<le> Depth (Tree a ! Idx v) + 1)"
proof -
  from built_ac[OF assms(1)] obtain lab where ac: "ac_inv ws lab a" by blast
  let ?P = "\<lambda>x. x \<in> set lab"
  have len: "length (Tree a) = length lab" using ac by (rule ac_len)
  have v: "Idx v < length lab" using assms(2) len by simp
  from ac have q: "qinv lab a" by (simp add: ac_inv_def)
  then have sh: "shape lab a" by (simp add: qinv_def sinv_def)
  from GetLink_ok[OF q v] obtain t a' where g: "GetLink v a = Some (t, a')"
    and ok: "link_ok lab a (Idx v) (t, a')" by auto
  from ok have t: "Idx t < length lab" and lt: "lab ! Idx t = lsp ?P (tl (lab ! Idx v))"
    by (simp_all add: link_ok_def)
  have "Depth (Tree a ! Idx t) < Depth (Tree a ! Idx v)" if "Idx v \<noteq> 0"
  proof -
    have "lab ! Idx v \<noteq> []" using shape_root[OF sh v] that by simp
    from lsp_strict[OF this, of ?P] show ?thesis using lt ac_depth[OF ac] v t by simp
  qed
  with g t len have 1: "\<exists>t a'. GetLink v a = Some (t, a') \<and> Idx t < length (Tree a) \<and>
            (Idx v \<noteq> 0 \<longrightarrow> Depth (Tree a ! Idx t) < Depth (Tree a ! Idx v))" by auto
  have 2: "\<exists>t a'. SwitchStateCode code v a = Some (t, a') \<and>
            Idx t < length (Tree a) \<and> Depth (Tree a ! Idx t) \<le> Depth (Tree a ! Idx v) + 1"
    if "code < CodeSize a" for code
  proof -
    from SwitchStateCode_ok[OF q v that] obtain t a' where g: "SwitchStateCode code v a = Some (t, a')"
      and ok: "switch_ok lab a code (Idx v) (t, a')" by auto
    from ok have t: "Idx t < length lab"
      and lt: "lab ! Idx t = lsp ?P (lab ! Idx v @ [int code])" by (simp_all add: switch_ok_def)
    have "length (lab ! Idx t) \<le> length (lab ! Idx v) + 1"
      using lsp_length_le[of ?P "lab ! Idx v @ [int code]"] lt by simp
    then show ?thesis using g t len ac_depth[OF ac] v by auto
  qed
  from 1 2 show ?thesis by blast
qed

theorem resolvers_terminate_witness:
  "\<exists>a t a' t2 a2. Reset [''abcd'', ''bcde'', ''cdef''] = Some a \<and>
     GetLink (TState_of 8 0 (-1)) a = Some (t, a') \<and>
     Depth (Tree a ! Idx t) < Depth (Tree a ! 8) \<and>
     SwitchStateCode 5 (TState_of 8 0 (-1)) a = Some (t2, a2)"
proof -
  let ?ws = "[''abcd'', ''bcde'', ''cdef'']"
  from Reset_example_size obtain a where a: "Reset ?ws = Some a" "length (Tree a) = 13"
    "CodeSize a = 6" by blast
  from a(1) have b: "built ?ws a" by (rule built_Reset)
  have i: "Idx (TState_of 8 0 (-1)) < length (Tree a)" using a(2) by (simp add: TState_of_def)
  have c: "(5::nat) < CodeSize a" using a(3) by simp
  from resolvers_terminate[OF b i] c a(1) show ?thesis by (auto simp: TState_of_def)
qed

lemma ac_prefix_range:
  assumes "ac_inv ws lab a" "trie_prefix ws s"
  shows "\<forall>c\<in>set s. char_index c < CODEMAP_SIZE"
proof
  fix c assume c: "c \<in> set s"
  then have "s \<noteq> []" by auto
  with assms(2) obtain w where w: "w \<in> set ws" "prefix s w" by (auto simp: trie_prefix_def)
  from w(2) have "set s \<subseteq> set w" by (rule set_mono_prefix)
  with c have "c \<in> set w" by blast
  moreover from assms(1) w(1) have "mapped a w" by (simp add: ac_inv_def)
  ultimately show "char_index c < CODEMAP_SIZE" by (simp add: mapped_def)
qed

text \<open>
  Claim C7. In an automaton built from the patterns \<open>ws\<close>, every proper prefix \<open>p\<close> of a
  pattern that is not itself a pattern has \<open>HasPrefix p\<close> true and \<open>HasString p\<close> false;
  and \<open>HasPrefix s\<close> is true exactly when \<open>s\<close> is a path of literal trie edges from the root,
  that is, when \<open>s\<close> is empty or a prefix of some pattern, whether or not it ends in a leaf.
\<close>

theorem HasPrefix_proper_prefixes:
  assumes "built ws a"
  shows "(\<forall>w\<in>set ws. \<forall>p. strict_prefix p w \<and> p \<notin> set ws \<longrightarrow>
            (\<exists>a'. HasPrefix p a = Some (True, a')) \<and> (\<exists>a'. HasString p a = Some (False, a'))) \<and>
         (\<forall>s. (\<exists>a'. HasPrefix s a = Some (True, a')) \<longleftrightarrow> trie_prefix ws s)"
proof -
  from built_ac[OF assms] obtain lab where ac: "ac_inv ws lab a" by blast
  have 1: "(\<exists>a'. HasPrefix p a = Some (True, a')) \<and> (\<exists>a'. HasString p a = Some (False, a'))"
    if "w \<in> set ws" "strict_prefix p w" "p \<notin> set ws" for w p
  proof -
    from that(1,2) have tp: "trie_prefix ws p" by (auto simp: trie_prefix_def strict_prefix_def)
    from ac tp have rg: "\<forall>c\<in>set p. char_index c < CODEMAP_SIZE" by (rule ac_prefix_range)
    from HasPrefix_total[OF ac rg] tp have "\<exists>a'. HasPrefix p a = Some (True, a')" by auto
    moreover from HasString_total[OF ac rg] that(3) have "\<exists>a'. HasString p a = Some (False, a')"
      by auto
    ultimately show ?thesis ..
  qed
  have 2: "(\<exists>a'. HasPrefix s a = Some (True, a')) \<longleftrightarrow> trie_prefix ws s" for s
  proof
    assume "\<exists>a'. HasPrefix s a = Some (True, a')"
    then obtain a' where h: "HasPrefix s a = Some (True, a')" ..
    then have "\<forall>c\<in>set s. char_index c < CODEMAP_SIZE" by (rule HasPrefix_True_range)
    from HasPrefix_total[OF ac this] h show "trie_prefix ws s" by auto
  next
    assume tp: "trie_prefix ws s"
    with ac have "\<forall>c\<in>set s. char_index c < CODEMAP_SIZE" by (rule ac_prefix_range)
    from HasPrefix_total[OF ac this] tp show "\<exists>a'. HasPrefix s a = Some (True, a')" by auto
  qed
  from 1 2 show ?thesis by blast
qed

theorem HasPrefix_proper_prefixes_witness:
  "\<exists>a a1 a2. Reset [''abcd'', ''bcde'', ''cdef''] = Some a \<and>
     HasPrefix ''abc'' a = Some (True, a1) \<and> HasString ''abc'' a = Some (False, a2)"
proof -
  let ?ws = "[''abcd'', ''bcde'', ''cdef'']"
  from Reset_example obtain a where a: "Reset ?ws = Some a" by blast
  then have b: "built ?ws a" by (rule built_Reset)
  have "''abcd'' \<in> set ?ws" "strict_prefix ''abc'' ''abcd'' \<and> ''abc'' \<notin> set ?ws"
    by (simp_all add: strict_prefix_def)
  with HasPrefix_proper_prefixes[OF b] a show ?thesis by blast
qed

text \<open>
  Claim C10. \<open>SearchIn\<close> only appends to the result vector it is given: the call on a vector
  \<open>res\<close> yields \<open>res\<close>, unchanged and in order, followed by what the same call yields on the
  empty vector; and on a built automaton, for a text shorter than \<open>2^32\<close> whose symbols index
  inside the code map, the call does return.
\<close>

theorem SearchIn_appends:
  "SearchIn s res a = map_option (\<lambda>(ms, a'). (res @ ms, a')) (SearchIn s [] a) \<and>
   (built ws a \<and> (\<forall>c\<in>set s. char_index c < CODEMAP_SIZE) \<and> length s < UINT_LIMIT \<longrightarrow>
      (\<exists>ms a'. SearchIn s [] a = Some (ms, a') \<and> SearchIn s res a = Some (res @ ms, a')))"
proof (rule conjI)
  show frame: "SearchIn s res a = map_option (\<lambda>(ms, a'). (res @ ms, a')) (SearchIn s [] a)"
    using search_loop_frame[of s 0 TState_new res a] by (simp add: SearchIn_def)
  show "built ws a \<and> (\<forall>c\<in>set s. char_index c < CODEMAP_SIZE) \<and> length s < UINT_LIMIT \<longrightarrow>
      (\<exists>ms a'. SearchIn s [] a = Some (ms, a') \<and> SearchIn s res a = Some (res @ ms, a'))"
  proof
    assume h: "built ws a \<and> (\<forall>c\<in>set s. char_index c < CODEMAP_SIZE) \<and> length s < UINT_LIMIT"
    from built_ac obtain lab where ac: "ac_inv ws lab a" using h by blast
    from h have rg: "\<forall>c\<in>set s. char_index c < CODEMAP_SIZE" and l: "length s < UINT_LIMIT"
      by simp_all
    from SearchIn_total[OF ac rg l, of "[]"] obtain a' where
      e: "SearchIn s [] a = Some (hits a ws [] s, a')" by auto
    with frame have "SearchIn s res a = Some (res @ hits a ws [] s, a')" by simp
    with e show "\<exists>ms a'. SearchIn s [] a = Some (ms, a') \<and> SearchIn s res a = Some (res @ ms, a')"
      by blast
  qed
qed

theorem SearchIn_appends_witness:
  "\<exists>a ms a'. Reset [''abcd'', ''bcde'', ''cdef''] = Some a \<and>
     SearchIn ''abcdef'' [] a = Some (ms, a') \<and>
     SearchIn ''abcdef'' [(7, 7), (3, 9)] a = Some ([(7, 7), (3, 9)] @ ms, a')"
proof -
  let ?ws = "[''abcd'', ''bcde'', ''cdef'']"
  from Reset_example obtain a where a: "Reset ?ws = Some a" by blast
  then have b: "built ?ws a" by (rule built_Reset)
  have l: "length ''abcdef'' < UINT_LIMIT" by (simp add: UINT_LIMIT_def)
  from SearchIn_appends[of "''abcdef''" "[(7, 7), (3, 9)]" a ?ws] b example_range l a
  show ?thesis by blast
qed

end
